theory Spec2Isabelle
  imports Complex_Main "HOL-Library.Multiset" "HOL-Library.AList" "HOL-Library.Sublist"
begin

text \<open>
  A shallow embedding of the preprocessing module of the DARIAH Topics toolkit
  (\<open>dariah_topics/preprocessing.py\<close>): the tokenizer, the segmenter, the dictionary
  builder, the sparse counter, the frequency filter and the exporter. The definitions
  come first, in the order of the source; the properties follow.
\<close>

section \<open>Python values used by the pipeline\<close>

text \<open>
  The exceptions the modelled functions can raise. A function that can raise returns
  \<open>py_error + 'a\<close>, with \<open>Inl\<close> for the exception.
\<close>

datatype py_error = KeyError | TypeError | OverflowError

text \<open>
  A Python \<open>dict\<close> is an association list in insertion order with pairwise distinct
  keys: \<open>map_of\<close> looks a key up, \<open>AList.update\<close> is the assignment \<open>d[k] = v\<close>
  (the value is replaced in place when the key is present, the pair is appended
  otherwise).
\<close>

type_synonym ('k, 'v) dict = "('k \<times> 'v) list"

definition dict_get :: "('k, 'v) dict \<Rightarrow> 'k \<Rightarrow> py_error + 'v" where
  "dict_get d k = (case map_of d k of None \<Rightarrow> Inl KeyError | Some v \<Rightarrow> Inr v)"

text \<open>The list comprehension \<^verbatim>\<open>[d[k] for k in ks]\<close>: the first missing key raises.\<close>

fun lookup_all :: "('k, 'v) dict \<Rightarrow> 'k list \<Rightarrow> py_error + 'v list" where
  "lookup_all d [] = Inr []"
| "lookup_all d (k # ks) =
     (case dict_get d k of
        Inl e \<Rightarrow> Inl e
      | Inr v \<Rightarrow> (case lookup_all d ks of Inl e \<Rightarrow> Inl e | Inr vs \<Rightarrow> Inr (v # vs)))"

text \<open>
  The order in which a Python \<open>set\<close> is iterated is not fixed by the language. It is
  a parameter of the model: \<open>set_order xs\<close> is the order in which the set built from
  the elements \<open>xs\<close> is iterated. All that is known of it is that every element
  comes once.
\<close>

definition set_iteration :: "('a list \<Rightarrow> 'a list) \<Rightarrow> bool" where
  "set_iteration set_order \<longleftrightarrow> (\<forall>xs. distinct (set_order xs) \<and> set (set_order xs) = set xs)"

section \<open>Tokenizer: \<open>tokenize\<close> (preprocessing.py, lines 38 and 148-191)\<close>

text \<open>
  A Python \<open>str\<close> is a sequence of Unicode code points. What the Unicode database
  says about a code point, and \<open>str.lower\<close>, are parameters of the model.
\<close>

type_synonym codepoint = nat
type_synonym py_str = "codepoint list"

record unicode =
  Letter :: "codepoint \<Rightarrow> bool"
  Punctuation :: "codepoint \<Rightarrow> bool"
  Word :: "codepoint \<Rightarrow> bool"
  str_lower :: "py_str \<Rightarrow> py_str"

text \<open>
  The regular expressions the tokenizer needs: a character class, a sequence, the
  greedy \<open>?\<close> and the greedy \<open>+\<close>. \<open>matches r s\<close> lists what is left of \<open>s\<close>
  after each way of matching \<open>r\<close> at its start, in the order in which a
  backtracking matcher tries them: the greedy operators try the longer match first.
  The first element is the match that the matcher reports.
\<close>

datatype regex = Class "codepoint \<Rightarrow> bool" | Seq regex regex | Opt regex | Plus regex

fun matches :: "regex \<Rightarrow> py_str \<Rightarrow> py_str list" where
  "matches (Class p) s = (case s of [] \<Rightarrow> [] | c # cs \<Rightarrow> if p c then [cs] else [])"
| "matches (Seq a b) s = concat (map (matches b) (matches a s))"
| "matches (Opt a) s = matches a s @ [s]"
| "matches (Plus a) s =
     concat (map (\<lambda>s'. if length s' < length s then matches (Plus a) s' @ [s'] else [s'])
               (matches a s))"

declare matches.simps(4) [simp del]

text \<open>
  \<open>pattern.finditer\<close>: the matches from left to right, without overlap. Where the
  pattern does not match, the search moves on by one character; after an empty
  match it moves on by one character as well.
\<close>

function finditer :: "regex \<Rightarrow> py_str \<Rightarrow> py_str list" where
  "finditer r s =
     (case matches r s of
        [] \<Rightarrow> (case s of [] \<Rightarrow> [] | c # cs \<Rightarrow> finditer r cs)
      | s' # others \<Rightarrow>
          (if length s' < length s then take (length s - length s') s # finditer r s'
           else (case s of [] \<Rightarrow> [[]] | c # cs \<Rightarrow> [] # finditer r cs)))"
  by pat_completeness auto
termination
  by (relation "measure (\<lambda>(r, s). length s)") auto

declare finditer.simps [simp del]

text \<open>
  \<^verbatim>\<open>regular_expression = r'\p{Letter}+\p{Punctuation}?\p{Letter}+'\<close>, and
  \<^verbatim>\<open>r'\w+'\<close> of the simple mode.
\<close>

definition regular_expression :: "unicode \<Rightarrow> regex" where
  "regular_expression U =
     Seq (Plus (Class (Letter U))) (Seq (Opt (Class (Punctuation U))) (Plus (Class (Letter U))))"

definition simple_expression :: "unicode \<Rightarrow> regex" where
  "simple_expression U = Plus (Class (Word U))"

text \<open>\<open>regex.sub\<close> of a pattern that is one literal character.\<close>

definition sub :: "codepoint \<Rightarrow> py_str \<Rightarrow> py_str \<Rightarrow> py_str" where
  "sub c repl doc_txt = concat (map (\<lambda>x. if x = c then repl else [x]) doc_txt)"

text \<open>
  The full stop is \<open>U+002E\<close>, the blank \<open>U+0020\<close>; the four dashes replaced by
  a blank are \<open>U+2012\<close>, \<open>U+2013\<close>, \<open>U+2014\<close> and \<open>U+2015\<close>.
\<close>

definition tokenize :: "unicode \<Rightarrow> py_str \<Rightarrow> regex \<Rightarrow> bool \<Rightarrow> bool \<Rightarrow> py_str list" where
  "tokenize U doc_txt expression lower simple =
     (let doc_txt = (if lower then str_lower U doc_txt else doc_txt);
          pattern = (if simple then simple_expression U else expression);
          doc_txt = sub 0x2E [] doc_txt;
          doc_txt = sub 0x2012 [0x20] doc_txt;
          doc_txt = sub 0x2013 [0x20] doc_txt;
          doc_txt = sub 0x2014 [0x20] doc_txt;
          doc_txt = sub 0x2015 [0x20] doc_txt
      in finditer pattern doc_txt)"

text \<open>The code points of a text written in ASCII.\<close>

definition ascii :: "string \<Rightarrow> py_str" where
  "ascii s = map of_char s"

text \<open>
  The Unicode database restricted to ASCII: the letters \<open>A-Z\<close> and \<open>a-z\<close>, the
  ASCII punctuation, the word characters (letters, digits, underscore), and
  \<open>str.lower\<close> on the letters \<open>A-Z\<close>.
\<close>

definition ascii_letter :: "codepoint \<Rightarrow> bool" where
  "ascii_letter c \<longleftrightarrow> (65 \<le> c \<and> c \<le> 90) \<or> (97 \<le> c \<and> c \<le> 122)"

definition ascii_punctuation :: "codepoint \<Rightarrow> bool" where
  "ascii_punctuation c \<longleftrightarrow>
     c \<in> set [33, 34, 35, 37, 38, 39, 40, 41, 42, 44, 45, 46, 47, 58, 59, 63, 64,
                91, 92, 93, 95, 123, 125]"

definition ascii_word :: "codepoint \<Rightarrow> bool" where
  "ascii_word c \<longleftrightarrow> ascii_letter c \<or> (48 \<le> c \<and> c \<le> 57) \<or> c = 95"

definition ascii_lower :: "py_str \<Rightarrow> py_str" where
  "ascii_lower s = map (\<lambda>c. if 65 \<le> c \<and> c \<le> 90 then c + 32 else c) s"

definition ascii_tables :: unicode where
  "ascii_tables = \<lparr>Letter = ascii_letter, Punctuation = ascii_punctuation,
                     Word = ascii_word, str_lower = ascii_lower\<rparr>"

text \<open>The least number of characters that a match of a regular expression has.\<close>

fun minlen :: "regex \<Rightarrow> nat" where
  "minlen (Class p) = 1"
| "minlen (Seq a b) = minlen a + minlen b"
| "minlen (Opt a) = 0"
| "minlen (Plus a) = minlen a"

text \<open>
  \<open>str.lower\<close> leaves a text as it is when each of its characters is a character
  of some lower-cased text or the blank. (Python's \<open>str.lower\<close> maps every
  character by itself, but for the Greek capital sigma, which it maps by its context;
  the characters it maps to are mapped to themselves, and the capital sigma is not
  one of them.)
\<close>

definition lower_stable :: "unicode \<Rightarrow> bool" where
  "lower_stable U \<longleftrightarrow>
     (\<forall>s t. set t \<subseteq> set (str_lower U s) \<union> {0x20} \<longrightarrow> str_lower U t = t)"

section \<open>Segmenter: \<open>segment_fuzzy\<close> (preprocessing.py, lines 251-313)\<close>

text \<open>
  The tolerance is a Python number, an \<open>int\<close> or a \<open>float\<close>; both are
  rationals, and the comparisons of the code are exact on them. A tolerance between 0
  and 1 is a \<open>float\<close>, and \<open>round(segment_size * tolerance)\<close> is then computed
  in binary floating point: the product is rounded to a \<open>float\<close> before
  \<open>round\<close> makes it an integer, and a \<open>segment_size\<close> too large for a
  \<open>float\<close> raises \<open>OverflowError\<close>. This arithmetic is the parameter
  \<open>round_product\<close> of the model; nothing is assumed of it.

  \<^verbatim>\<open>if tolerance > 0 and tolerance < 1: tolerance = round(segment_size * tolerance)\<close>
\<close>

definition effective_tolerance ::
  "(int \<Rightarrow> rat \<Rightarrow> py_error + int) \<Rightarrow> int \<Rightarrow> rat \<Rightarrow> py_error + rat" where
  "effective_tolerance round_product segment_size tolerance =
     (if 0 < tolerance \<and> tolerance < 1
      then (case round_product segment_size tolerance of
              Inl e \<Rightarrow> Inl e
            | Inr n \<Rightarrow> Inr (of_int n))
      else Inr tolerance)"

text \<open>
  Python slices \<open>xs[:i]\<close> and \<open>xs[i:]\<close>: a negative index counts from the end
  and is clamped at the start of the list.
\<close>

definition slice_to :: "'a list \<Rightarrow> int \<Rightarrow> 'a list" where
  "slice_to xs i = (if i < 0 then take (nat (int (length xs) + i)) xs else take (nat i) xs)"

definition slice_from :: "'a list \<Rightarrow> int \<Rightarrow> 'a list" where
  "slice_from xs i = (if i < 0 then drop (nat (int (length xs) + i)) xs else drop (nat i) xs)"

text \<open>
  \<^verbatim>\<open>chunk = list(carry if carry else next(doc_iter))\<close>: the carry is used when it
  is truthy, that is neither \<open>None\<close> nor the empty list; otherwise the next chunk
  of the document is taken, and \<open>None\<close> here stands for \<open>StopIteration\<close>.
\<close>

fun next_chunk :: "'a list option \<Rightarrow> 'a list list \<Rightarrow> ('a list \<times> 'a list list) option" where
  "next_chunk (Some c) doc_iter =
     (if c \<noteq> [] then Some (c, doc_iter)
      else (case doc_iter of [] \<Rightarrow> None | d # ds \<Rightarrow> Some (d, ds)))"
| "next_chunk None doc_iter = (case doc_iter of [] \<Rightarrow> None | d # ds \<Rightarrow> Some (d, ds))"

text \<open>A \<open>yield\<close> puts one segment in front of whatever the generator yields later.\<close>

definition yield :: "'a \<Rightarrow> 'a list option \<Rightarrow> 'a list option" where
  "yield seg later = map_option ((#) seg) later"

text \<open>
  The \<open>while True\<close> loop of the generator, one iteration per unit of fuel. The
  result is the list of all segments yielded, or \<open>None\<close> when the fuel does not
  suffice: a generator that never stops yielding has the value \<open>None\<close> for
  every amount of fuel.
\<close>

fun segment_loop ::
  "nat \<Rightarrow> int \<Rightarrow> rat \<Rightarrow> 'a list option \<Rightarrow> 'a list list \<Rightarrow> 'a list list \<Rightarrow> int
     \<Rightarrow> 'a list list list option" where
  "segment_loop 0 segment_size tolerance carry doc_iter current_segment current_size = None"
| "segment_loop (Suc fuel) segment_size tolerance carry doc_iter current_segment current_size =
     (case next_chunk carry doc_iter of
        None \<Rightarrow> Some (if current_segment \<noteq> [] then [current_segment] else [])
      | Some (chunk, doc_iter') \<Rightarrow>
          (let current_segment = current_segment @ [chunk];
               current_size = current_size + int (length chunk)
           in if segment_size \<le> current_size then
                (let too_long = current_size - segment_size;
                     too_short = segment_size - (current_size - int (length chunk))
                 in if 0 \<le> tolerance \<and> tolerance < of_int (min too_long too_short) then
                      yield (current_segment[length current_segment - 1 := slice_to chunk (- too_long)])
                        (segment_loop fuel segment_size tolerance
                           (Some (slice_from chunk (- too_long))) doc_iter' [] 0)
                    else if too_short \<le> too_long then
                      yield (butlast current_segment)
                        (segment_loop fuel segment_size tolerance
                           (Some (last current_segment)) doc_iter' [] 0)
                    else
                      yield current_segment
                        (segment_loop fuel segment_size tolerance None doc_iter' [] 0))
              else segment_loop fuel segment_size tolerance None doc_iter'
                     current_segment current_size))"

text \<open>
  \<open>segment_fuzzy\<close>: \<open>Inl\<close> when the conversion of the tolerance raises, which
  happens before anything is yielded; otherwise the outcome of the loop.
\<close>

definition segment_fuzzy ::
  "(int \<Rightarrow> rat \<Rightarrow> py_error + int) \<Rightarrow> nat \<Rightarrow> 'a list list \<Rightarrow> int \<Rightarrow> rat
     \<Rightarrow> py_error + 'a list list list option" where
  "segment_fuzzy round_product fuel document segment_size tolerance =
     (case effective_tolerance round_product segment_size tolerance of
        Inl e \<Rightarrow> Inl e
      | Inr tolerance \<Rightarrow>
          Inr (segment_loop fuel segment_size tolerance None document [] 0))"

text \<open>
  The default tolerance of \<open>segment_fuzzy\<close>: the \<open>float\<close> that Python reads
  \<open>0.05\<close> as.
\<close>

definition default_tolerance :: rat where
  "default_tolerance = 3602879701896397 / 2 ^ 56"

text \<open>
  Fuel that suffices when the generator stops: one iteration per chunk still
  to be read, and one per token of the carry and of the chunks.
\<close>

definition carry_tokens :: "'a list option \<Rightarrow> 'a list" where
  "carry_tokens carry = (case carry of None \<Rightarrow> [] | Some c \<Rightarrow> c)"

definition enough_fuel :: "'a list option \<Rightarrow> 'a list list \<Rightarrow> nat" where
  "enough_fuel carry doc_iter =
     length (carry_tokens carry) + sum_list (map (\<lambda>c. Suc (length c)) doc_iter) + 1"

section \<open>Dictionary builder: \<open>create_dictionary\<close> (preprocessing.py, lines 427-447)\<close>

text \<open>
  The argument is a list whose elements are tokens or lists of tokens.
  \<^verbatim>\<open>all(isinstance(element, list) for element in tokens)\<close> holds when every element
  is a list (also for the empty list); then the tokens of all elements are collected
  in a set, which is handed to \<open>set\<close> once more. Otherwise \<open>set(tokens)\<close> is built
  from the elements themselves, which raises \<open>TypeError\<close> when one of them is a
  list, since a list cannot be hashed.
\<close>

datatype 'a element = Token 'a | ListOf "'a list"

fun as_list :: "'a element \<Rightarrow> 'a list option" where
  "as_list (ListOf ts) = Some ts"
| "as_list (Token t) = None"

fun as_token :: "'a element \<Rightarrow> 'a option" where
  "as_token (Token t) = Some t"
| "as_token (ListOf ts) = None"

text \<open>\<^verbatim>\<open>{token: id_ for id_, token in enumerate(xs, 1)}\<close>\<close>

definition enumerate_from_1 :: "'a list \<Rightarrow> ('a, int) dict" where
  "enumerate_from_1 xs = zip xs [1 .. int (length xs)]"

definition create_dictionary ::
  "('a list \<Rightarrow> 'a list) \<Rightarrow> 'a element list \<Rightarrow> py_error + ('a, int) dict" where
  "create_dictionary set_order tokens =
     (case those (map as_list tokens) of
        Some chunks \<Rightarrow> Inr (enumerate_from_1 (set_order (set_order (concat chunks))))
      | None \<Rightarrow>
          (case those (map as_token tokens) of
             Some ts \<Rightarrow> Inr (enumerate_from_1 (set_order ts))
           | None \<Rightarrow> Inl TypeError))"

section \<open>Sparse counter: \<open>create_sparse_bow\<close> (preprocessing.py, lines 450-567)\<close>

text \<open>
  \<open>collections.Counter\<close> of a list: a dictionary from each element to the number of
  its occurrences, in the order of first occurrence. Reading a key that is absent
  gives 0.
\<close>

definition counter_get :: "('k, int) dict \<Rightarrow> 'k \<Rightarrow> int" where
  "counter_get c k = (case map_of c k of None \<Rightarrow> 0 | Some n \<Rightarrow> n)"

definition Counter :: "'k list \<Rightarrow> ('k, int) dict" where
  "Counter xs = foldl (\<lambda>c x. AList.update x (counter_get c x + 1) c) [] xs"

text \<open>
  \<open>_create_large_counter\<close>: the loop over \<open>zip(doc_labels, doc_tokens)\<close>, which
  stops with the shorter list. \<open>type_dictionary[token]\<close> raises \<open>KeyError\<close> for a
  token that is not in the dictionary. A label that comes twice keeps only the counter
  of its last occurrence.
\<close>

fun large_counter_loop ::
  "'l list \<Rightarrow> 'a list list \<Rightarrow> ('a, int) dict \<Rightarrow> ('l, (int, int) dict) dict
     \<Rightarrow> py_error + ('l, (int, int) dict) dict" where
  "large_counter_loop (doc # doc_labels) (tokens # doc_tokens) type_dictionary largecounter =
     (case lookup_all type_dictionary tokens of
        Inl e \<Rightarrow> Inl e
      | Inr ids \<Rightarrow> large_counter_loop doc_labels doc_tokens type_dictionary
                    (AList.update doc (Counter ids) largecounter))"
| "large_counter_loop doc_labels doc_tokens type_dictionary largecounter = Inr largecounter"

definition create_large_counter ::
  "'l list \<Rightarrow> 'a list list \<Rightarrow> ('a, int) dict \<Rightarrow> py_error + ('l, (int, int) dict) dict" where
  "create_large_counter doc_labels doc_tokens type_dictionary =
     large_counter_loop doc_labels doc_tokens type_dictionary []"

text \<open>
  \<^verbatim>\<open>{doc_dictionary[key]: value for key, value in temp_counter.items()}\<close>:
  \<open>KeyError\<close> for a label that is not in the document dictionary; of two labels
  with the same identifier the later one stays.
\<close>

fun rekey ::
  "('l, int) dict \<Rightarrow> ('l, (int, int) dict) dict \<Rightarrow> (int, (int, int) dict) dict
     \<Rightarrow> py_error + (int, (int, int) dict) dict" where
  "rekey doc_dictionary [] largecounter = Inr largecounter"
| "rekey doc_dictionary ((key, val) # items) largecounter =
     (case dict_get doc_dictionary key of
        Inl e \<Rightarrow> Inl e
      | Inr doc_id \<Rightarrow> rekey doc_dictionary items (AList.update doc_id val largecounter))"

text \<open>
  A Sparse Frequency Table is a pandas \<open>DataFrame\<close> with one integer column and a
  two-level index \<open>(doc_id, token_id)\<close>: it is modelled as the list of its rows
  \<open>((doc_id, token_id), count)\<close> in row order.
\<close>

type_synonym sparse_index = "(int \<times> int) list"
type_synonym sparse_bow = "((int \<times> int) \<times> int) list"

definition doc_id :: "(int \<times> int) \<times> int \<Rightarrow> int" where
  "doc_id row = fst (fst row)"

definition token_id :: "(int \<times> int) \<times> int \<Rightarrow> int" where
  "token_id row = snd (fst row)"

text \<open>
  \<open>_create_sparse_index\<close>, as \<open>create_sparse_bow\<close> calls it, on a plain
  dictionary: \<open>largecounter[key]\<close> raises \<open>KeyError\<close> when one of the keys
  \<open>1 .. len(largecounter)\<close> is absent. A document without tokens gets the tuple
  \<open>(key, 0)\<close>. \<open>MultiIndex.from_tuples(tuples, names=[...])\<close> makes the index
  with these tuples as its entries, in their order; from the empty list it makes the
  index without entries.
\<close>

fun sparse_index_loop ::
  "(int, (int, int) dict) dict \<Rightarrow> int list \<Rightarrow> sparse_index \<Rightarrow> py_error + sparse_index" where
  "sparse_index_loop largecounter [] tuples = Inr tuples"
| "sparse_index_loop largecounter (key # keys) tuples =
     (case dict_get largecounter key of
        Inl e \<Rightarrow> Inl e
      | Inr counter \<Rightarrow>
          sparse_index_loop largecounter keys
            (tuples @ (if length counter = 0 then [(key, 0)] else [])
                    @ map (\<lambda>item. (key, fst item)) counter))"

definition from_tuples :: "sparse_index \<Rightarrow> sparse_index" where
  "from_tuples tuples = tuples"

definition create_sparse_index :: "(int, (int, int) dict) dict \<Rightarrow> py_error + sparse_index" where
  "create_sparse_index largecounter =
     (case sparse_index_loop largecounter [1 .. int (length largecounter)] [] of
        Inl e \<Rightarrow> Inl e
      | Inr tuples \<Rightarrow> Inr (from_tuples tuples))"

text \<open>
  The loop of \<open>create_sparse_bow\<close> that fills the table of zeros. \<open>levels[0]\<close> of
  the index holds the different document identifiers; \<open>index_iterator[doc_id]\<close>
  is the group of the index tuples of that document and raises \<open>KeyError\<close> when
  there is none; \<open>set_value\<close> assigns one cell.
\<close>

fun fill_loop ::
  "(int, (int, int) dict) dict \<Rightarrow> sparse_index \<Rightarrow> int list \<Rightarrow> sparse_bow \<Rightarrow> py_error + sparse_bow" where
  "fill_loop largecounter sparse_index [] sparse_bow_filled = Inr sparse_bow_filled"
| "fill_loop largecounter sparse_index (d # doc_ids) sparse_bow_filled =
     (case [val \<leftarrow> sparse_index. fst val = d] of
        [] \<Rightarrow> Inl KeyError
      | val # vals \<Rightarrow>
          (case dict_get largecounter d of
             Inl e \<Rightarrow> Inl e
           | Inr counter \<Rightarrow>
               fill_loop largecounter sparse_index doc_ids
                 (foldl (\<lambda>table t. AList.update (d, t) (counter_get counter t) table)
                    sparse_bow_filled (map snd (val # vals)))))"

definition create_sparse_bow ::
  "'l list \<Rightarrow> 'a list list \<Rightarrow> ('a, int) dict \<Rightarrow> ('l, int) dict \<Rightarrow> py_error + sparse_bow" where
  "create_sparse_bow doc_labels doc_tokens type_dictionary doc_dictionary =
     (case create_large_counter doc_labels doc_tokens type_dictionary of
        Inl e \<Rightarrow> Inl e
      | Inr temp_counter \<Rightarrow>
     (case rekey doc_dictionary temp_counter [] of
        Inl e \<Rightarrow> Inl e
      | Inr largecounter \<Rightarrow>
     (case create_sparse_index largecounter of
        Inl e \<Rightarrow> Inl e
      | Inr sparse_index \<Rightarrow>
          fill_loop largecounter sparse_index
            [1 .. int (length (remdups (map fst sparse_index)))]
            (map (\<lambda>i. (i, 0)) sparse_index))))"

section \<open>Frequency filter (preprocessing.py, lines 644-718)\<close>

text \<open>
  \<^verbatim>\<open>sparse_bow.groupby(sparse_bow.index.get_level_values('token_id')).sum()\<close>: one
  row per token identifier, in ascending order of the identifiers, with the sum of
  the counts of that identifier over all documents.
\<close>

definition token_sum :: "sparse_bow \<Rightarrow> int \<Rightarrow> int" where
  "token_sum sparse_bow t = sum_list (map snd [row \<leftarrow> sparse_bow. token_id row = t])"

definition groupby_token_sum :: "sparse_bow \<Rightarrow> (int, int) dict" where
  "groupby_token_sum sparse_bow =
     map (\<lambda>t. (t, token_sum sparse_bow t)) (sort (remdups (map token_id sparse_bow)))"

text \<open>\<^verbatim>\<open>{value: key for key, value in id_types.items()}\<close>\<close>

definition invert_dict :: "('k, 'v) dict \<Rightarrow> ('v, 'k) dict" where
  "invert_dict d = foldl (\<lambda>acc item. AList.update (snd item) (fst item) acc) [] d"

definition find_hapax :: "sparse_bow \<Rightarrow> ('a, int) dict \<Rightarrow> py_error + 'a list" where
  "find_hapax sparse_bow id_types =
     (let type2id = invert_dict id_types;
          sparse_bow_collapsed = groupby_token_sum sparse_bow;
          sparse_bow_hapax = [row \<leftarrow> sparse_bow_collapsed. snd row = 1]
      in lookup_all type2id (map fst sparse_bow_hapax))"

text \<open>
  \<open>remove_features\<close>. The features are a list or a set; only membership in them is
  used. \<open>set(id_types.keys())\<close> is iterated in the order of the parameter
  \<open>set_order\<close>. \<open>DataFrame.drop(labels, level="token_id")\<close> is a method of
  pandas and not code of this module: it is the parameter \<open>drop_labels\<close>.
\<close>

definition remove_features_with ::
  "('a list \<Rightarrow> 'a list) \<Rightarrow> (int list \<Rightarrow> 'df \<Rightarrow> py_error + 'df) \<Rightarrow> 'df \<Rightarrow> ('a, int) dict
     \<Rightarrow> 'a list \<Rightarrow> py_error + 'df" where
  "remove_features_with set_order drop_labels sparse_bow id_types features =
     (let stoplist_applied = [word \<leftarrow> set_order (map fst id_types). word \<in> set features]
      in case lookup_all id_types stoplist_applied of
           Inl e \<Rightarrow> Inl e
         | Inr ids \<Rightarrow> drop_labels ids sparse_bow)"

text \<open>
  \<open>DataFrame.drop(labels, level="token_id")\<close> of the pandas releases that provide
  \<open>DataFrame.set_value\<close>, which \<open>create_sparse_bow\<close> needs: it keeps the rows
  whose token identifier is not among the labels and does not look at labels that
  match no row. \<open>remove_features\<close> is the function with this \<open>drop\<close>.
\<close>

definition drop_token_ids :: "int list \<Rightarrow> sparse_bow \<Rightarrow> sparse_bow" where
  "drop_token_ids ids sparse_bow = [row \<leftarrow> sparse_bow. token_id row \<notin> set ids]"

definition remove_features ::
  "('a list \<Rightarrow> 'a list) \<Rightarrow> sparse_bow \<Rightarrow> ('a, int) dict \<Rightarrow> 'a list \<Rightarrow> py_error + sparse_bow" where
  "remove_features set_order sparse_bow id_types features =
     remove_features_with set_order (\<lambda>ids table. Inr (drop_token_ids ids table))
       sparse_bow id_types features"

text \<open>
  \<open>DataFrame.drop(labels, level="token_id")\<close> of later pandas releases, on an index
  whose entries are pairwise different: every label is looked up among the values of
  the index level \<open>token_id\<close>, and a label that is not found raises \<open>KeyError\<close>.
  The values of a level are those the index was built with; the index of the table
  returned has the same level, also when no row with one of its values is left. The
  level is the parameter \<open>level\<close>.
\<close>

definition drop_checked :: "int list \<Rightarrow> int list \<Rightarrow> sparse_bow \<Rightarrow> py_error + sparse_bow" where
  "drop_checked level ids sparse_bow =
     (if set ids \<subseteq> set level then Inr (drop_token_ids ids sparse_bow) else Inl KeyError)"

section \<open>The rows of one document\<close>

text \<open>
  The rows that \<open>create_sparse_bow\<close> makes for the document \<open>key\<close> from its
  counter: one row per counted token identifier, or the single row \<open>(key, 0)\<close>
  with count 0 when nothing was counted.
\<close>

definition doc_rows :: "int \<Rightarrow> (int, int) dict \<Rightarrow> sparse_bow" where
  "doc_rows key counter =
     (if counter = [] then [((key, 0), 0)] else map (\<lambda>item. ((key, fst item), snd item)) counter)"

text \<open>The index tuples that \<open>_create_sparse_index\<close> makes for the document \<open>key\<close>.\<close>

definition idx_rows :: "int \<Rightarrow> (int, int) dict \<Rightarrow> sparse_index" where
  "idx_rows key counter =
     (if length counter = 0 then [(key, 0)] else []) @ map (\<lambda>item. (key, fst item)) counter"

text \<open>The counter of a document in \<open>largecounter\<close>, empty when the document is absent.\<close>

definition counter_of :: "(int, (int, int) dict) dict \<Rightarrow> int \<Rightarrow> (int, int) dict" where
  "counter_of largecounter key = (case map_of largecounter key of None \<Rightarrow> [] | Some c \<Rightarrow> c)"

text \<open>
  A \<open>largecounter\<close> as \<open>create_sparse_bow\<close> builds it: a dictionary of
  dictionaries (keys pairwise distinct at both levels).
\<close>

definition wf_largecounter :: "('k, (int, int) dict) dict \<Rightarrow> bool" where
  "wf_largecounter lc \<longleftrightarrow>
     distinct (map fst lc) \<and> list_all (\<lambda>item. distinct (map fst (snd item))) lc"

text \<open>The number of occurrences of a token in all token lists of the corpus.\<close>

definition occurrences :: "'a list list \<Rightarrow> 'a \<Rightarrow> int" where
  "occurrences doc_tokens w = sum_list (map (\<lambda>tokens. int (count_list tokens w)) doc_tokens)"

section \<open>Exporter: \<open>save_sparse_bow\<close> (preprocessing.py, lines 570-605)\<close>

text \<open>\<open>str\<close> of a Python integer: its decimal digits, with a minus sign when negative.\<close>

definition digit_char :: "nat \<Rightarrow> char" where
  "digit_char d = ''0123456789'' ! d"

fun str_nat :: "nat \<Rightarrow> string" where
  "str_nat n = (if n < 10 then [digit_char n] else str_nat (n div 10) @ [digit_char (n mod 10)])"

declare str_nat.simps [simp del]

definition str_int :: "int \<Rightarrow> string" where
  "str_int i = (if i < 0 then CHR ''-'' # str_nat (nat (- i)) else str_nat (nat i))"

text \<open>
  \<open>max()\<close> of an index level. On a level without values pandas gives \<open>nan\<close>,
  which is \<open>None\<close> here and is printed as \<open>nan\<close>.
\<close>

fun level_max :: "int list \<Rightarrow> int option" where
  "level_max [] = None"
| "level_max (x # xs) = (case level_max xs of None \<Rightarrow> Some x | Some m \<Rightarrow> Some (max x m))"

definition str_level_max :: "int option \<Rightarrow> string" where
  "str_level_max m = (case m of None \<Rightarrow> ''nan'' | Some i \<Rightarrow> str_int i)"

definition newline :: string where
  "newline = [CHR 0x0A]"

text \<open>
  \<^verbatim>\<open>sparse_bow.to_csv(f, sep=' ', header=None)\<close>: one line per row, the two index
  values and the count separated by blanks.
\<close>

definition csv_row :: "(int \<times> int) \<times> int \<Rightarrow> string" where
  "csv_row row = str_int (doc_id row) @ '' '' @ str_int (token_id row) @ '' '' @ str_int (snd row) @ newline"

definition header_string :: "sparse_bow \<Rightarrow> string" where
  "header_string sparse_bow =
     (let num_docs = level_max (map doc_id sparse_bow);
          num_types = level_max (map token_id sparse_bow);
          sum_counts = sum_list (map snd sparse_bow)
      in str_level_max num_docs @ '' '' @ str_level_max num_types @ '' '' @ str_int sum_counts @ newline)"

text \<open>
  The result is the path of the file written, \<open>output\<close> with the extension
  \<open>.mm\<close>, and the lines written to it, each ending in a newline.
\<close>

definition save_sparse_bow :: "sparse_bow \<Rightarrow> string \<Rightarrow> string \<times> string list" where
  "save_sparse_bow sparse_bow output =
     (output @ ''.'' @ ''mm'',
      (''%%MatrixMarket matrix coordinate real general'' @ newline)
        # header_string sparse_bow
        # map csv_row sparse_bow)"

section \<open>Properties of the tokenizer\<close>

lemma matches_suffix:
  "s' \<in> set (matches r s) \<Longrightarrow> suffix s' s \<and> length s' + minlen r \<le> length s"
proof (induction r s arbitrary: s' rule: matches.induct)
  case (1 p s)
  then show ?case by (cases s) (auto simp: suffix_Cons split: if_splits)
next
  case (2 a b s)
  from "2.prems" obtain s1 where s1: "s1 \<in> set (matches a s)" "s' \<in> set (matches b s1)" by auto
  have a: "suffix s1 s" "length s1 + minlen a \<le> length s"
    using "2.IH"(1)[OF s1(1)] by simp_all
  have b: "suffix s' s1" "length s' + minlen b \<le> length s1"
    using "2.IH"(2)[OF s1(1) s1(2)] by simp_all
  have "suffix s' s" using b(1) a(1) by (rule suffix_order.trans)
  moreover have "length s' + minlen (Seq a b) \<le> length s" using a(2) b(2) by simp
  ultimately show ?case by simp
next
  case (3 a s)
  show ?case
  proof (cases "s' = s")
    case True
    then show ?thesis by simp
  next
    case False
    then have "s' \<in> set (matches a s)" using "3.prems" by simp
    from "3.IH"[OF this] show ?thesis by simp
  qed
next
  case (4 a s)
  have u: "matches (Plus a) s
      = concat (map (\<lambda>s'. if length s' < length s then matches (Plus a) s' @ [s'] else [s'])
               (matches a s))"
    by (rule matches.simps(4))
  from "4.prems"[unfolded u] obtain s1 where s1: "s1 \<in> set (matches a s)"
    "s' \<in> set (if length s1 < length s then matches (Plus a) s1 @ [s1] else [s1])"
    by auto
  note a = "4.IH"(1)[OF s1(1)]
  show ?case
  proof (cases "s' = s1")
    case True
    then show ?thesis using a by simp
  next
    case False
    have l: "length s1 < length s"
    proof (rule ccontr)
      assume "\<not> length s1 < length s"
      then show False using s1(2) False by simp
    qed
    then have m: "s' \<in> set (matches (Plus a) s1)" using s1(2) False by simp
    have b: "suffix s' s1" "length s' + minlen (Plus a) \<le> length s1"
      using "4.IH"(2)[OF s1(1) l m] by simp_all
    have "suffix s1 s" using a by simp
    with b(1) have "suffix s' s" by (rule suffix_order.trans)
    moreover have "length s' + minlen (Plus a) \<le> length s" using b(2) l by simp
    ultimately show ?thesis by simp
  qed
qed

lemma finditer_no_match:
  "matches r s = [] \<Longrightarrow> finditer r s = (case s of [] \<Rightarrow> [] | c # cs \<Rightarrow> finditer r cs)"
  by (subst finditer.simps) simp

lemma finditer_match:
  "matches r s = s' # others \<Longrightarrow> length s' < length s \<Longrightarrow>
   finditer r s = take (length s - length s') s # finditer r s'"
  by (subst finditer.simps) simp

lemma finditer_empty_match:
  "matches r s = s' # others \<Longrightarrow> \<not> length s' < length s \<Longrightarrow>
   finditer r s = (case s of [] \<Rightarrow> [[]] | c # cs \<Rightarrow> [] # finditer r cs)"
  by (subst finditer.simps) simp

lemma finditer_tokens:
  "t \<in> set (finditer r s) \<Longrightarrow> minlen r \<le> length t \<and> set t \<subseteq> set s"
proof (induction r s rule: finditer.induct)
  case (1 r s)
  show ?case
  proof (cases "matches r s")
    case Nil
    show ?thesis
    proof (cases s)
      case Nil
      then show ?thesis using "1.prems" finditer_no_match[OF \<open>matches r s = []\<close>] by simp
    next
      case (Cons c cs)
      then have "t \<in> set (finditer r cs)"
        using "1.prems" finditer_no_match[OF \<open>matches r s = []\<close>] by simp
      from "1.IH"(1)[OF \<open>matches r s = []\<close> Cons this] Cons show ?thesis by auto
    qed
  next
    case (Cons s' others)
    then have m: "s' \<in> set (matches r s)" by simp
    note ms = matches_suffix[OF m]
    show ?thesis
    proof (cases "length s' < length s")
      case True
      then have "t = take (length s - length s') s \<or> t \<in> set (finditer r s')"
        using "1.prems" finditer_match[OF Cons True] by simp
      then show ?thesis
      proof
        assume t: "t = take (length s - length s') s"
        then have "set t \<subseteq> set s" by (simp add: set_take_subset)
        moreover have "minlen r \<le> length s - length s'" using ms by linarith
        then have "minlen r \<le> length t" using t by simp
        ultimately show ?thesis by simp
      next
        assume "t \<in> set (finditer r s')"
        from "1.IH"(2)[OF Cons True this] have "minlen r \<le> length t" "set t \<subseteq> set s'" by simp_all
        moreover have "set s' \<subseteq> set s" using ms by (simp add: set_mono_suffix)
        ultimately show ?thesis by blast
      qed
    next
      case False
      then have z: "minlen r = 0" using ms by simp
      show ?thesis
      proof (cases s)
        case Nil
        then show ?thesis
          using "1.prems" finditer_empty_match[OF \<open>matches r s = s' # others\<close> False] z by simp
      next
        case (Cons c cs)
        then have "t = [] \<or> t \<in> set (finditer r cs)"
          using "1.prems" finditer_empty_match[OF \<open>matches r s = s' # others\<close> False] by simp
        then show ?thesis
        proof
          assume "t = []" then show ?thesis using z by simp
        next
          assume "t \<in> set (finditer r cs)"
          from "1.IH"(3)[OF \<open>matches r s = s' # others\<close> False Cons this] Cons show ?thesis by auto
        qed
      qed
    qed
  qed
qed

lemma set_sub: "set (sub c repl d) \<subseteq> set d \<union> set repl"
  unfolding sub_def by (induction d) auto

lemma sub_delete: "set d \<subseteq> A \<Longrightarrow> set (sub c [] d) \<subseteq> A"
  using set_sub[of c "[]" d] by simp

lemma sub_blank: "set d \<subseteq> A \<union> {b} \<Longrightarrow> set (sub c [b] d) \<subseteq> A \<union> {b}"
  using set_sub[of c "[b]" d] by auto

lemma tokenize_unfold:
  "tokenize U doc_txt expression lower simple
     = finditer (if simple then simple_expression U else expression)
         (sub 0x2015 [0x20] (sub 0x2014 [0x20] (sub 0x2013 [0x20] (sub 0x2012 [0x20]
            (sub 0x2E [] (if lower then str_lower U doc_txt else doc_txt))))))"
  unfolding tokenize_def Let_def by (rule refl)

lemma tokenize_chars:
  assumes "t \<in> set (tokenize U doc_txt expression lower simple)"
  shows "set t \<subseteq> set (if lower then str_lower U doc_txt else doc_txt) \<union> {0x20}"
proof -
  let ?d0 = "if lower then str_lower U doc_txt else doc_txt"
  let ?d5 = "sub 0x2015 [0x20] (sub 0x2014 [0x20] (sub 0x2013 [0x20] (sub 0x2012 [0x20]
            (sub 0x2E [] ?d0))))"
  have "set (sub 0x2E [] ?d0) \<subseteq> set ?d0 \<union> {0x20}"
    by (rule sub_delete) (rule Un_upper1)
  then have "set ?d5 \<subseteq> set ?d0 \<union> {0x20}"
    by (intro sub_blank)
  moreover have "set t \<subseteq> set ?d5"
    using assms finditer_tokens[of t _ ?d5] unfolding tokenize_unfold by (rule_tac conjunct2)
  ultimately show ?thesis by (rule_tac subset_trans)
qed

lemma tokenize_default_length:
  assumes "t \<in> set (tokenize U doc_txt (regular_expression U) lower False)"
  shows "2 \<le> length t"
proof -
  have "minlen (regular_expression U) = 2" by (simp add: regular_expression_def)
  then show ?thesis
    using assms finditer_tokens[of t "regular_expression U"] unfolding tokenize_unfold
    by (simp only: if_False)
qed

lemma tokenize_example:
  assumes L: "\<forall>c \<in> set (ascii ''thisonexampl''). Letter U c"
    and B: "\<not> Letter U 0x20" "\<not> Punctuation U 0x20"
    and LW: "str_lower U (ascii ''This is one example text.'') = ascii ''this is one example text.''"
  shows "tokenize U (ascii ''This is one example text.'') (regular_expression U) True False
       = map ascii [''this'', ''is'', ''one'', ''example'', ''text'']"
  using L B unfolding tokenize_unfold LW
  by (simp add: ascii_def sub_def regular_expression_def finditer.simps matches.simps)

lemma tokenize_lowercased:
  assumes "lower_stable U" "t \<in> set (tokenize U doc_txt expression True simple)"
  shows "str_lower U t = t"
proof -
  have "set t \<subseteq> set (str_lower U doc_txt) \<union> {0x20}"
    using tokenize_chars[OF assms(2)] by simp
  then show ?thesis using assms(1) unfolding lower_stable_def by blast
qed

text \<open>
  Claim C8. With the default pattern every token has at least two characters, so none
  is a single letter. With lowering enabled the tokens are those of the lower-cased
  text: every character of a token is a character of \<open>doc_txt.lower()\<close> or the
  blank that replaced a dash, and every token is left as it is by \<open>str.lower\<close>,
  given that \<open>str.lower\<close> leaves every text as it is that is made of characters
  of lower-cased texts and blanks (as Python's does, also on the Greek capital sigma,
  which it maps by its context). With the default settings, and a
  Unicode database in which the twelve letters of the example are letters, the blank
  is neither a letter nor punctuation and the example is lower-cased as in ASCII, the
  text \<open>This is one example text.\<close> gives exactly the tokens \<open>this\<close>,
  \<open>is\<close>, \<open>one\<close>, \<open>example\<close>, \<open>text\<close>.
\<close>

theorem tokenize_default:
  "(\<forall>t \<in> set (tokenize U doc_txt (regular_expression U) lower False). 2 \<le> length t)
   \<and> tokenize U doc_txt expression True simple
       = tokenize U (str_lower U doc_txt) expression False simple
   \<and> (\<forall>t \<in> set (tokenize U doc_txt expression True simple).
         set t \<subseteq> set (str_lower U doc_txt) \<union> {0x20})
   \<and> (lower_stable U \<longrightarrow>
         (\<forall>t \<in> set (tokenize U doc_txt expression True simple). str_lower U t = t))
   \<and> ((\<forall>c \<in> set (ascii ''thisonexampl''). Letter U c)
        \<and> \<not> Letter U 0x20 \<and> \<not> Punctuation U 0x20
        \<and> str_lower U (ascii ''This is one example text.'') = ascii ''this is one example text.''
       \<longrightarrow> tokenize U (ascii ''This is one example text.'') (regular_expression U) True False
             = map ascii [''this'', ''is'', ''one'', ''example'', ''text''])"
proof -
  have A: "\<forall>t \<in> set (tokenize U doc_txt (regular_expression U) lower False). 2 \<le> length t"
    using tokenize_default_length by blast
  have B: "tokenize U doc_txt expression True simple
       = tokenize U (str_lower U doc_txt) expression False simple"
    unfolding tokenize_unfold by simp
  have C: "\<forall>t \<in> set (tokenize U doc_txt expression True simple).
         set t \<subseteq> set (str_lower U doc_txt) \<union> {0x20}"
    using tokenize_chars[of _ U doc_txt expression True simple] by simp
  have D: "lower_stable U \<longrightarrow>
         (\<forall>t \<in> set (tokenize U doc_txt expression True simple). str_lower U t = t)"
    using tokenize_lowercased by blast
  show ?thesis using A B C D tokenize_example by blast
qed

lemma lower_stable_ascii: "lower_stable ascii_tables"
proof -
  have s: "str_lower ascii_tables = ascii_lower" by (simp add: ascii_tables_def)
  have "ascii_lower t = t" if "set t \<subseteq> set (ascii_lower s) \<union> {0x20}" for s t
  proof -
    have "\<not> (65 \<le> c \<and> c \<le> 90)" if "c \<in> set t" for c
      using that \<open>set t \<subseteq> set (ascii_lower s) \<union> {0x20}\<close>
      by (auto simp: ascii_lower_def)
    then have "map (\<lambda>c. if 65 \<le> c \<and> c \<le> 90 then c + 32 else c) t = map (\<lambda>c. c) t"
      by (intro map_cong) auto
    then show ?thesis by (simp add: ascii_lower_def)
  qed
  then show ?thesis unfolding lower_stable_def s by blast
qed

text \<open>
  The theorem with the Unicode database restricted to ASCII, on the example text and
  its token \<open>example\<close>.
\<close>

theorem tokenize_default_witness:
  "lower_stable ascii_tables
   \<and> tokenize ascii_tables (ascii ''This is one example text.'') (regular_expression ascii_tables)
        True False
      = map ascii [''this'', ''is'', ''one'', ''example'', ''text'']
   \<and> ascii ''example'' \<in> set (tokenize ascii_tables (ascii ''This is one example text.'')
        (regular_expression ascii_tables) True False)
   \<and> 2 \<le> length (ascii ''example'')
   \<and> set (ascii ''example'') \<subseteq> set (str_lower ascii_tables (ascii ''This is one example text.'')) \<union> {0x20}
   \<and> str_lower ascii_tables (ascii ''example'') = ascii ''example''"
proof -
  note t = tokenize_default[of ascii_tables "ascii ''This is one example text.''" True
      "regular_expression ascii_tables" False]
  have h: "(\<forall>c \<in> set (ascii ''thisonexampl''). Letter ascii_tables c)
        \<and> \<not> Letter ascii_tables 0x20 \<and> \<not> Punctuation ascii_tables 0x20
        \<and> str_lower ascii_tables (ascii ''This is one example text.'')
            = ascii ''this is one example text.''"
    by (simp add: ascii_tables_def ascii_def ascii_letter_def ascii_punctuation_def ascii_lower_def)
  from t h have e: "tokenize ascii_tables (ascii ''This is one example text.'')
        (regular_expression ascii_tables) True False
      = map ascii [''this'', ''is'', ''one'', ''example'', ''text'']"
    by blast
  then have m: "ascii ''example'' \<in> set (tokenize ascii_tables (ascii ''This is one example text.'')
        (regular_expression ascii_tables) True False)"
    by simp
  from t m have "2 \<le> length (ascii ''example'')" by blast
  moreover from t m have "set (ascii ''example'')
      \<subseteq> set (str_lower ascii_tables (ascii ''This is one example text.'')) \<union> {0x20}"
    by blast
  moreover from t m lower_stable_ascii
  have "str_lower ascii_tables (ascii ''example'') = ascii ''example''" by blast
  ultimately show ?thesis using e m lower_stable_ascii by blast
qed

section \<open>Properties of the segmenter\<close>

subsection \<open>One iteration of the loop\<close>

lemma slice_to_from: "slice_to xs i @ slice_from xs i = xs"
  by (simp add: slice_to_def slice_from_def)

lemma next_chunk_tokens:
  "next_chunk carry doc_iter = Some (chunk, doc_iter') \<Longrightarrow>
     carry_tokens carry @ concat doc_iter = chunk @ concat doc_iter'"
  by (cases carry) (auto simp: carry_tokens_def split: if_splits list.splits)

lemma next_chunk_None:
  "next_chunk carry doc_iter = None \<Longrightarrow> carry_tokens carry = [] \<and> doc_iter = []"
  by (cases carry) (auto simp: carry_tokens_def split: if_splits list.splits)

lemma yield_Some: "yield seg later = Some segs \<longleftrightarrow> (\<exists>r. later = Some r \<and> segs = seg # r)"
  by (cases later) (auto simp: yield_def)

lemma step_stop:
  "next_chunk carry doc_iter = None \<Longrightarrow>
   segment_loop (Suc fuel) segment_size tol carry doc_iter cur cur_size =
     Some (if cur \<noteq> [] then [cur] else [])"
  by simp

lemma step_cont:
  "next_chunk carry doc_iter = Some (chunk, doc_iter') \<Longrightarrow>
   \<not> segment_size \<le> cur_size + int (length chunk) \<Longrightarrow>
   segment_loop (Suc fuel) segment_size tol carry doc_iter cur cur_size =
     segment_loop fuel segment_size tol None doc_iter' (cur @ [chunk]) (cur_size + int (length chunk))"
  by (simp only: simp_thms segment_loop.simps Let_def option.case prod.case if_False)

lemma step_split:
  "next_chunk carry doc_iter = Some (chunk, doc_iter') \<Longrightarrow>
   segment_size \<le> cur_size + int (length chunk) \<Longrightarrow>
   0 \<le> tol \<and> tol < of_int (min (cur_size + int (length chunk) - segment_size)
       (segment_size - (cur_size + int (length chunk) - int (length chunk)))) \<Longrightarrow>
   segment_loop (Suc fuel) segment_size tol carry doc_iter cur cur_size =
     yield (cur @ [slice_to chunk (- (cur_size + int (length chunk) - segment_size))])
       (segment_loop fuel segment_size tol
          (Some (slice_from chunk (- (cur_size + int (length chunk) - segment_size)))) doc_iter' [] 0)"
  by (simp only: simp_thms segment_loop.simps Let_def option.case prod.case if_True
        length_append_singleton diff_Suc_1 list_update_length)

lemma step_evict:
  "next_chunk carry doc_iter = Some (chunk, doc_iter') \<Longrightarrow>
   segment_size \<le> cur_size + int (length chunk) \<Longrightarrow>
   \<not> (0 \<le> tol \<and> tol < of_int (min (cur_size + int (length chunk) - segment_size)
       (segment_size - (cur_size + int (length chunk) - int (length chunk))))) \<Longrightarrow>
   segment_size - (cur_size + int (length chunk) - int (length chunk))
      \<le> cur_size + int (length chunk) - segment_size \<Longrightarrow>
   segment_loop (Suc fuel) segment_size tol carry doc_iter cur cur_size =
     yield cur (segment_loop fuel segment_size tol (Some chunk) doc_iter' [] 0)"
  by (simp only: simp_thms segment_loop.simps Let_def option.case prod.case if_True if_False
        butlast_snoc last_snoc)

lemma step_keep:
  "next_chunk carry doc_iter = Some (chunk, doc_iter') \<Longrightarrow>
   segment_size \<le> cur_size + int (length chunk) \<Longrightarrow>
   \<not> (0 \<le> tol \<and> tol < of_int (min (cur_size + int (length chunk) - segment_size)
       (segment_size - (cur_size + int (length chunk) - int (length chunk))))) \<Longrightarrow>
   \<not> segment_size - (cur_size + int (length chunk) - int (length chunk))
      \<le> cur_size + int (length chunk) - segment_size \<Longrightarrow>
   segment_loop (Suc fuel) segment_size tol carry doc_iter cur cur_size =
     yield (cur @ [chunk]) (segment_loop fuel segment_size tol None doc_iter' [] 0)"
  by (simp only: simp_thms segment_loop.simps Let_def option.case prod.case if_True if_False)

lemma segment_loop_lossless:
  "segment_loop fuel segment_size tolerance carry doc_iter current_segment current_size = Some segs
   \<Longrightarrow> concat (concat segs) = concat current_segment @ carry_tokens carry @ concat doc_iter"
proof (induction fuel arbitrary: carry doc_iter current_segment current_size segs)
  case 0
  then show ?case by simp
next
  case (Suc fuel)
  show ?case
  proof (cases "next_chunk carry doc_iter")
    case None
    with Suc.prems next_chunk_None[OF None] show ?thesis by (auto split: if_splits)
  next
    case (Some p)
    obtain chunk doc_iter' where p: "p = (chunk, doc_iter')" by (cases p)
    have nx: "next_chunk carry doc_iter = Some (chunk, doc_iter')" using Some p by simp
    have nc: "carry_tokens carry @ concat doc_iter = chunk @ concat doc_iter'"
      using next_chunk_tokens nx by blast
    define sz where "sz = current_size + int (length chunk)"
    define tl where "tl = sz - segment_size"
    define ts where "ts = segment_size - (sz - int (length chunk))"
    consider (cont) "\<not> segment_size \<le> sz"
      | (split) "segment_size \<le> sz" "0 \<le> tolerance \<and> tolerance < of_int (min tl ts)"
      | (evict) "segment_size \<le> sz" "\<not> (0 \<le> tolerance \<and> tolerance < of_int (min tl ts))" "ts \<le> tl"
      | (keep) "segment_size \<le> sz" "\<not> (0 \<le> tolerance \<and> tolerance < of_int (min tl ts))" "\<not> ts \<le> tl"
      by blast
    then have "concat (concat segs) = concat current_segment @ chunk @ concat doc_iter'"
    proof cases
      case cont
      from Suc.prems step_cont[OF nx cont[unfolded sz_def]]
      have "segment_loop fuel segment_size tolerance None doc_iter' (current_segment @ [chunk]) sz = Some segs"
        by (simp add: sz_def)
      from Suc.IH[OF this] show ?thesis
        by (simp add: carry_tokens_def)
    next
      case split
      from Suc.prems step_split[OF nx split[unfolded sz_def tl_def ts_def]]
      obtain r where r: "segment_loop fuel segment_size tolerance
              (Some (slice_from chunk (- tl))) doc_iter' [] 0 = Some r"
          and segs: "segs = (current_segment @ [slice_to chunk (- tl)]) # r"
        by (auto simp: yield_Some sz_def tl_def)
      from Suc.IH[OF r] segs have "concat (concat segs) =
           concat current_segment @ (slice_to chunk (- tl) @ slice_from chunk (- tl)) @ concat doc_iter'"
        by (simp add: carry_tokens_def)
      then show ?thesis by (simp only: slice_to_from)
    next
      case evict
      from Suc.prems step_evict[OF nx evict[unfolded sz_def tl_def ts_def]]
      obtain r where r: "segment_loop fuel segment_size tolerance (Some chunk) doc_iter' [] 0 = Some r"
          and segs: "segs = current_segment # r"
        by (auto simp: yield_Some)
      from Suc.IH[OF r] segs show ?thesis
        by (simp add: carry_tokens_def)
    next
      case keep
      from Suc.prems step_keep[OF nx keep[unfolded sz_def tl_def ts_def]]
      obtain r where r: "segment_loop fuel segment_size tolerance None doc_iter' [] 0 = Some r"
          and segs: "segs = (current_segment @ [chunk]) # r"
        by (auto simp: yield_Some)
      from Suc.IH[OF r] segs show ?thesis
        by (simp add: carry_tokens_def)
    qed
    then show ?thesis by (simp only: nc)
  qed
qed



subsection \<open>Termination\<close>

lemma length_slice_from_neg:
  "0 < k \<Longrightarrow> length (slice_from xs (- k)) = min (length xs) (nat k)"
  by (auto simp: slice_from_def)

lemma next_chunk_cases:
  assumes "next_chunk carry doc_iter = Some (chunk, doc_iter')"
  shows "(carry = Some chunk \<and> chunk \<noteq> [] \<and> doc_iter' = doc_iter)
       \<or> (carry_tokens carry = [] \<and> doc_iter = chunk # doc_iter')"
  using assms by (cases carry) (auto simp: carry_tokens_def split: if_splits list.splits)

lemma enough_fuel_pos: "0 < enough_fuel carry doc_iter"
  by (simp add: enough_fuel_def)

lemma enough_fuel_next:
  assumes "next_chunk carry doc_iter = Some (chunk, doc_iter')" "length c' \<le> length chunk"
      "carry = Some chunk \<and> chunk \<noteq> [] \<longrightarrow> length c' < length chunk"
  shows "enough_fuel (Some c') doc_iter' < enough_fuel carry doc_iter"
  using next_chunk_cases[OF assms(1)] assms(2,3)
  by (auto simp: enough_fuel_def carry_tokens_def)

lemma enough_fuel_next_None:
  assumes "next_chunk carry doc_iter = Some (chunk, doc_iter')"
  shows "enough_fuel None doc_iter' < enough_fuel carry doc_iter"
  using next_chunk_cases[OF assms(1)]
  by (auto simp: enough_fuel_def carry_tokens_def)

lemma segment_loop_terminates:
  assumes "1 \<le> segment_size" "0 \<le> tolerance" "tolerance < of_int segment_size"
  shows "enough_fuel carry doc_iter \<le> fuel \<Longrightarrow> 0 \<le> current_size \<Longrightarrow> current_size < segment_size \<Longrightarrow>
     (\<forall>c. carry = Some c \<and> c \<noteq> [] \<longrightarrow> current_size = 0) \<Longrightarrow>
     \<exists>segs. segment_loop fuel segment_size tolerance carry doc_iter current_segment current_size = Some segs"
proof (induction fuel arbitrary: carry doc_iter current_segment current_size)
  case 0
  then show ?case using enough_fuel_pos[of carry doc_iter] by simp
next
  case (Suc fuel)
  show ?case
  proof (cases "next_chunk carry doc_iter")
    case None
    then show ?thesis by (simp only: step_stop) blast
  next
    case (Some p)
    obtain chunk doc_iter' where p: "p = (chunk, doc_iter')" by (cases p)
    have nx: "next_chunk carry doc_iter = Some (chunk, doc_iter')" using Some p by simp
    have sole: "carry = Some chunk \<Longrightarrow> chunk \<noteq> [] \<Longrightarrow> current_size = 0"
      using Suc.prems(4) by simp
    define sz where "sz = current_size + int (length chunk)"
    define tl where "tl = sz - segment_size"
    define ts where "ts = segment_size - (sz - int (length chunk))"
    have fuelN: "enough_fuel None doc_iter' \<le> fuel"
      using enough_fuel_next_None[OF nx] Suc.prems(1) by simp
    consider (cont) "\<not> segment_size \<le> sz"
      | (split) "segment_size \<le> sz" "0 \<le> tolerance \<and> tolerance < of_int (min tl ts)"
      | (evict) "segment_size \<le> sz" "\<not> (0 \<le> tolerance \<and> tolerance < of_int (min tl ts))" "ts \<le> tl"
      | (keep) "segment_size \<le> sz" "\<not> (0 \<le> tolerance \<and> tolerance < of_int (min tl ts))" "\<not> ts \<le> tl"
      by blast
    then show ?thesis
    proof cases
      case cont
      have "\<exists>segs. segment_loop fuel segment_size tolerance None doc_iter' (current_segment @ [chunk]) sz = Some segs"
        using cont Suc.prems(2) by (intro Suc.IH fuelN) (auto simp: sz_def)
      then show ?thesis
        using step_cont[OF nx cont[unfolded sz_def]] by (simp add: sz_def)
    next
      case split
      have tlpos: "0 < tl" "tl < int (length chunk)"
        using split(2) assms(2) Suc.prems(2,3) by (auto simp: ts_def tl_def sz_def)
      then have len: "length (slice_from chunk (- tl)) < length chunk"
        by (simp add: length_slice_from_neg)
      have "enough_fuel (Some (slice_from chunk (- tl))) doc_iter' < enough_fuel carry doc_iter"
        using len by (intro enough_fuel_next[OF nx]) auto
      then have "\<exists>segs. segment_loop fuel segment_size tolerance (Some (slice_from chunk (- tl))) doc_iter' [] 0 = Some segs"
        using Suc.prems(1) assms(1) by (intro Suc.IH) auto
      then show ?thesis
        using step_split[OF nx split[unfolded sz_def tl_def ts_def]]
        by (auto simp: yield_def tl_def sz_def)
    next
      case evict
      have notsole: "\<not> (carry = Some chunk \<and> chunk \<noteq> [])"
      proof
        assume c: "carry = Some chunk \<and> chunk \<noteq> []"
        then have z: "current_size = 0" using sole by simp
        have "ts \<le> tl" by (rule evict(3))
        then have "min tl ts = segment_size" using z by (simp add: ts_def tl_def sz_def)
        with evict(2) assms(2,3) show False by simp
      qed
      have "enough_fuel (Some chunk) doc_iter' < enough_fuel carry doc_iter"
        using notsole by (intro enough_fuel_next[OF nx]) auto
      then have "\<exists>segs. segment_loop fuel segment_size tolerance (Some chunk) doc_iter' [] 0 = Some segs"
        using Suc.prems(1) assms(1) by (intro Suc.IH) auto
      then show ?thesis
        using step_evict[OF nx evict[unfolded sz_def tl_def ts_def]]
        by (auto simp: yield_def)
    next
      case keep
      have "\<exists>segs. segment_loop fuel segment_size tolerance None doc_iter' [] 0 = Some segs"
        using assms(1) by (intro Suc.IH fuelN) auto
      then show ?thesis
        using step_keep[OF nx keep[unfolded sz_def tl_def ts_def]]
        by (auto simp: yield_def)
    qed
  qed
qed

lemma diverges_sole:
  assumes "tolerance < 0" "1 \<le> segment_size" "2 * segment_size \<le> int (length c)"
  shows "segment_loop fuel segment_size tolerance (Some c) doc_iter [] 0 = None"
proof (induction fuel)
  case 0
  show ?case by simp
next
  case (Suc fuel)
  have ne: "c \<noteq> []" using assms(2,3) by auto
  then have nx: "next_chunk (Some c) doc_iter = Some (c, doc_iter)" by simp
  have "segment_loop (Suc fuel) segment_size tolerance (Some c) doc_iter [] 0
      = yield [] (segment_loop fuel segment_size tolerance (Some c) doc_iter [] 0)"
    using assms by (intro step_evict[OF nx]) auto
  then show ?case using Suc by (simp add: yield_def)
qed


subsection \<open>Losslessness\<close>

lemma segment_loop_more_fuel:
  "segment_loop fuel segment_size tolerance carry doc_iter current_segment current_size = Some segs \<Longrightarrow>
   segment_loop (fuel + k) segment_size tolerance carry doc_iter current_segment current_size = Some segs"
proof (induction fuel arbitrary: carry doc_iter current_segment current_size segs)
  case 0
  then show ?case by simp
next
  case (Suc fuel)
  show ?case
  proof (cases "next_chunk carry doc_iter")
    case None
    with Suc.prems show ?thesis by simp
  next
    case (Some p)
    obtain chunk doc_iter' where p: "p = (chunk, doc_iter')" by (cases p)
    have nx: "next_chunk carry doc_iter = Some (chunk, doc_iter')" using Some p by simp
    define sz where "sz = current_size + int (length chunk)"
    define tl where "tl = sz - segment_size"
    define ts where "ts = segment_size - (sz - int (length chunk))"
    have S: "Suc fuel + k = Suc (fuel + k)" by simp
    consider (cont) "\<not> segment_size \<le> sz"
      | (split) "segment_size \<le> sz" "0 \<le> tolerance \<and> tolerance < of_int (min tl ts)"
      | (evict) "segment_size \<le> sz" "\<not> (0 \<le> tolerance \<and> tolerance < of_int (min tl ts))" "ts \<le> tl"
      | (keep) "segment_size \<le> sz" "\<not> (0 \<le> tolerance \<and> tolerance < of_int (min tl ts))" "\<not> ts \<le> tl"
      by blast
    then show ?thesis
    proof cases
      case cont
      note st = step_cont[OF nx cont[unfolded sz_def]]
      from Suc.prems show ?thesis unfolding S st by (rule Suc.IH)
    next
      case split
      note st = step_split[OF nx split[unfolded sz_def tl_def ts_def]]
      from Suc.prems show ?thesis unfolding S st yield_Some using Suc.IH by blast
    next
      case evict
      note st = step_evict[OF nx evict[unfolded sz_def tl_def ts_def]]
      from Suc.prems show ?thesis unfolding S st yield_Some using Suc.IH by blast
    next
      case keep
      note st = step_keep[OF nx keep[unfolded sz_def tl_def ts_def]]
      from Suc.prems show ?thesis unfolding S st yield_Some using Suc.IH by blast
    qed
  qed
qed

lemma default_tolerance_fraction: "0 < default_tolerance \<and> default_tolerance < 1"
  by (simp add: default_tolerance_def)

lemma effective_tolerance_absolute:
  "\<not> (0 < tolerance \<and> tolerance < 1) \<Longrightarrow>
     effective_tolerance round_product segment_size tolerance = Inr tolerance"
  by (auto simp: effective_tolerance_def)

lemma segment_fuzzy_total:
  assumes "1 \<le> segment_size" "effective_tolerance round_product segment_size tolerance = Inr t"
    "0 \<le> t" "t < of_int segment_size"
  shows "\<exists>segs. \<forall>fuel \<ge> enough_fuel None document.
           segment_fuzzy round_product fuel document segment_size tolerance = Inr (Some segs)"
proof -
  obtain segs where s: "segment_loop (enough_fuel None document) segment_size
       t None document [] 0 = Some segs"
    using segment_loop_terminates[OF assms(1,3,4), of None document "enough_fuel None document" 0 "[]"]
      assms(1)
    by auto
  have "segment_fuzzy round_product fuel document segment_size tolerance = Inr (Some segs)"
    if "enough_fuel None document \<le> fuel" for fuel
  proof -
    have "fuel = enough_fuel None document + (fuel - enough_fuel None document)" using that by simp
    then have "segment_loop fuel segment_size t None document [] 0 = Some segs"
      using segment_loop_more_fuel[OF s] by metis
    then show ?thesis by (simp add: segment_fuzzy_def assms(2))
  qed
  then show ?thesis by blast
qed

text \<open>
  Losslessness. Whatever the target size and the tolerance, when \<open>segment_fuzzy\<close>
  has yielded its last segment, the tokens of all chunks of all segments, in the order
  yielded, are the tokens of the input chunks in their order: none is lost, none is
  duplicated. The generator does reach its end, with a result that no longer depends
  on the fuel, whenever the target size is at least 1 and the tolerance, after the
  conversion of a fraction, is at least 0 and below the target size. The document of
  the docstring, at target size 2 and the default tolerance, of which the product with
  2 is rounded to 0, gives exactly the four segments of the docstring.
\<close>

theorem segment_fuzzy_lossless:
  "(\<forall>fuel segs. segment_fuzzy round_product fuel document segment_size tolerance = Inr (Some segs)
       \<longrightarrow> concat (concat segs) = concat document)
   \<and> (1 \<le> segment_size
        \<and> (\<exists>t. effective_tolerance round_product segment_size tolerance = Inr t
                \<and> 0 \<le> t \<and> t < of_int segment_size)
       \<longrightarrow> (\<exists>segs. (\<forall>fuel \<ge> enough_fuel None document.
                      segment_fuzzy round_product fuel document segment_size tolerance
                        = Inr (Some segs))
                  \<and> concat (concat segs) = concat document))
   \<and> (round_product 2 default_tolerance = Inr 0
       \<longrightarrow> (\<forall>fuel \<ge> 6. segment_fuzzy round_product fuel
         [[''This'', ''test'', ''is'', ''very'', ''clear''], [''and'', ''contains'', ''chunks'']]
         2 default_tolerance
       = Inr (Some [[[''This'', ''test'']], [[''is'', ''very'']], [[''clear''], [''and'']],
               [[''contains'', ''chunks'']]])))"
proof -
  have A: "concat (concat segs) = concat document"
    if "segment_fuzzy round_product fuel document segment_size tolerance = Inr (Some segs)"
    for fuel segs
  proof -
    from that obtain t where "segment_loop fuel segment_size t None document [] 0 = Some segs"
      by (auto simp: segment_fuzzy_def split: sum.splits)
    from segment_loop_lossless[OF this] show ?thesis by (simp add: carry_tokens_def)
  qed
  have B: "\<exists>segs. (\<forall>fuel \<ge> enough_fuel None document.
                      segment_fuzzy round_product fuel document segment_size tolerance
                        = Inr (Some segs))
                  \<and> concat (concat segs) = concat document"
    if h: "1 \<le> segment_size" "effective_tolerance round_product segment_size tolerance = Inr t"
       "0 \<le> t" "t < of_int segment_size" for t
  proof -
    obtain segs where s: "\<forall>fuel \<ge> enough_fuel None document.
           segment_fuzzy round_product fuel document segment_size tolerance = Inr (Some segs)"
      using segment_fuzzy_total[OF h] by blast
    then have "segment_fuzzy round_product (enough_fuel None document) document segment_size tolerance
        = Inr (Some segs)"
      by simp
    from A[OF this] s show ?thesis by blast
  qed
  have C: "segment_fuzzy round_product fuel
         [[''This'', ''test'', ''is'', ''very'', ''clear''], [''and'', ''contains'', ''chunks'']]
         2 default_tolerance
       = Inr (Some [[[''This'', ''test'']], [[''is'', ''very'']], [[''clear''], [''and'']],
               [[''contains'', ''chunks'']]])"
    if r: "round_product 2 default_tolerance = Inr 0" and "6 \<le> fuel" for fuel
  proof -
    have e: "effective_tolerance round_product 2 default_tolerance = Inr 0"
      using default_tolerance_fraction by (simp add: effective_tolerance_def r)
    have "segment_loop 6 2 0 None
         [[''This'', ''test'', ''is'', ''very'', ''clear''], [''and'', ''contains'', ''chunks'']] [] 0
       = Some [[[''This'', ''test'']], [[''is'', ''very'']], [[''clear''], [''and'']],
               [[''contains'', ''chunks'']]]"
      by (simp add: eval_nat_numeral Let_def yield_def slice_to_def slice_from_def)
    from segment_loop_more_fuel[OF this, of "fuel - 6"] that(2) show ?thesis
      by (simp add: segment_fuzzy_def e)
  qed
  show ?thesis using A B C by blast
qed

text \<open>
  The theorem at a document of two chunks, with the default tolerance and a rounded
  product of 0: the first chunk is split, its rest is joined with the second chunk.
\<close>

theorem segment_fuzzy_lossless_witness:
  "segment_fuzzy (\<lambda>n t. Inr 0) 4 [[1, 2, 3], [4 :: nat]] 2 default_tolerance
     = Inr (Some [[[1, 2]], [[3], [4]]])
   \<and> concat (concat [[[1, 2]], [[3], [4 :: nat]]]) = concat [[1, 2, 3], [4 :: nat]]
   \<and> (1 :: int) \<le> 2
   \<and> effective_tolerance (\<lambda>n t. Inr 0) 2 default_tolerance = Inr 0
   \<and> (\<exists>segs. (\<forall>fuel \<ge> enough_fuel None [[1, 2, 3], [4 :: nat]].
          segment_fuzzy (\<lambda>n t. Inr 0) fuel [[1, 2, 3], [4 :: nat]] 2 default_tolerance
            = Inr (Some segs))
          \<and> concat (concat segs) = concat [[1, 2, 3], [4 :: nat]])"
proof -
  have e: "effective_tolerance (\<lambda>n t. Inr 0) 2 default_tolerance = Inr 0"
    using default_tolerance_fraction by (simp add: effective_tolerance_def)
  have r: "segment_fuzzy (\<lambda>n t. Inr 0) 4 [[1, 2, 3], [4 :: nat]] 2 default_tolerance
      = Inr (Some [[[1, 2]], [[3], [4]]])"
    by (simp add: segment_fuzzy_def e eval_nat_numeral Let_def yield_def
          slice_to_def slice_from_def)
  note t = segment_fuzzy_lossless[of "\<lambda>n t. Inr 0" "[[1, 2, 3], [4 :: nat]]" 2 default_tolerance]
  from t r have "concat (concat [[[1, 2]], [[3], [4 :: nat]]]) = concat [[1, 2, 3], [4 :: nat]]"
    by blast
  moreover from t e have "\<exists>segs. (\<forall>fuel \<ge> enough_fuel None [[1, 2, 3], [4 :: nat]].
          segment_fuzzy (\<lambda>n t. Inr 0) fuel [[1, 2, 3], [4 :: nat]] 2 default_tolerance
            = Inr (Some segs))
          \<and> concat (concat segs) = concat [[1, 2, 3], [4 :: nat]]"
    by simp
  ultimately show ?thesis using r e by simp
qed

text \<open>
  Claim C4. With a negative tolerance no chunk is split, but a chunk at least twice as
  long as the target size is not accepted as a segment of its own: standing alone in
  the current segment it is evicted and carried over, an empty segment is yielded, and
  the next iteration meets the same chunk in the same state. For
  \<^verbatim>\<open>segment_fuzzy([['a', 'b', 'c', 'd']], 2, -1)\<close> no amount of fuel reaches the end
  of the generator.
\<close>

theorem segment_fuzzy_oversized_chunk_never_finishes:
  "segment_fuzzy round_product fuel [[''a'', ''b'', ''c'', ''d'']] 2 (- 1) = Inr None"
proof (cases fuel)
  case 0
  then show ?thesis by (simp add: segment_fuzzy_def effective_tolerance_def)
next
  case (Suc n)
  have e: "effective_tolerance round_product 2 (- 1) = Inr (- 1)"
    by (simp add: effective_tolerance_def)
  have nx: "next_chunk None [[''a'', ''b'', ''c'', ''d'']] = Some ([''a'', ''b'', ''c'', ''d''], [])"
    by simp
  have "segment_loop (Suc n) 2 (- 1) None [[''a'', ''b'', ''c'', ''d'']] [] 0
      = yield [] (segment_loop n 2 (- 1) (Some [''a'', ''b'', ''c'', ''d'']) [] [] 0)"
    by (rule step_evict[OF nx]) simp_all
  also have "segment_loop n 2 (- 1) (Some [''a'', ''b'', ''c'', ''d'']) [] [] 0 = None"
    by (rule diverges_sole) simp_all
  finally show ?thesis by (simp add: segment_fuzzy_def e Suc yield_def)
qed

subsection \<open>Negative tolerance\<close>

text \<open>
  What holds of the claim on negative tolerances: whenever the generator reaches its
  end, every chunk of every segment is a chunk of the document, and a single chunk of
  at least the target size and less than twice the target size is a segment of its
  own. What fails: a document with a chunk at least twice as long as the target size
  never reaches the end of the generator.
\<close>

lemma negative_tolerance_whole_chunks:
  assumes "tolerance < 0"
  shows "segment_loop fuel segment_size tolerance carry doc_iter current_segment current_size = Some segs
    \<Longrightarrow> set (concat segs) \<subseteq> set current_segment \<union> set_option carry \<union> set doc_iter"
proof (induction fuel arbitrary: carry doc_iter current_segment current_size segs)
  case 0
  then show ?case by simp
next
  case (Suc fuel)
  show ?case
  proof (cases "next_chunk carry doc_iter")
    case None
    then show ?thesis using Suc.prems by (auto simp: step_stop split: if_splits)
  next
    case (Some p)
    obtain chunk doc_iter' where p: "p = (chunk, doc_iter')" by (cases p)
    have nx: "next_chunk carry doc_iter = Some (chunk, doc_iter')" using Some p by simp
    have src: "insert chunk (set doc_iter') \<subseteq> set_option carry \<union> set doc_iter"
      using next_chunk_cases[OF nx] by auto
    define sz where "sz = current_size + int (length chunk)"
    define tl where "tl = sz - segment_size"
    define ts where "ts = segment_size - (sz - int (length chunk))"
    have nosplit: "\<not> (0 \<le> tolerance \<and> tolerance < of_int (min tl ts))" using assms by simp
    consider (cont) "\<not> segment_size \<le> sz"
      | (evict) "segment_size \<le> sz" "ts \<le> tl"
      | (keep) "segment_size \<le> sz" "\<not> ts \<le> tl"
      by blast
    then show ?thesis
    proof cases
      case cont
      from Suc.prems step_cont[OF nx cont[unfolded sz_def]]
      have "segment_loop fuel segment_size tolerance None doc_iter' (current_segment @ [chunk]) sz = Some segs"
        by (simp add: sz_def)
      from Suc.IH[OF this] src show ?thesis by auto
    next
      case evict
      from Suc.prems step_evict[OF nx evict(1)[unfolded sz_def] nosplit[unfolded sz_def tl_def ts_def]
          evict(2)[unfolded sz_def tl_def ts_def]]
      obtain r where r: "segment_loop fuel segment_size tolerance (Some chunk) doc_iter' [] 0 = Some r"
          and segs: "segs = current_segment # r"
        by (auto simp: yield_Some)
      from Suc.IH[OF r] segs src show ?thesis by auto
    next
      case keep
      from Suc.prems step_keep[OF nx keep(1)[unfolded sz_def] nosplit[unfolded sz_def tl_def ts_def]
          keep(2)[unfolded sz_def tl_def ts_def]]
      obtain r where r: "segment_loop fuel segment_size tolerance None doc_iter' [] 0 = Some r"
          and segs: "segs = (current_segment @ [chunk]) # r"
        by (auto simp: yield_Some)
      from Suc.IH[OF r] segs src show ?thesis by auto
    qed
  qed
qed

lemma negative_tolerance_never_splits:
  assumes "tolerance < 0"
    "segment_fuzzy round_product fuel document segment_size tolerance = Inr (Some segs)"
    "seg \<in> set segs" "chunk \<in> set seg"
  shows "chunk \<in> set document"
proof -
  have "effective_tolerance round_product segment_size tolerance = Inr tolerance"
    using assms(1) by (simp add: effective_tolerance_def)
  then have "segment_loop fuel segment_size tolerance None document [] 0 = Some segs"
    using assms(2) by (simp add: segment_fuzzy_def)
  from negative_tolerance_whole_chunks[OF assms(1) this] assms(3,4) show ?thesis by auto
qed

lemma negative_tolerance_oversized_chunk:
  assumes "tolerance < 0" "1 \<le> segment_size" "2 * segment_size \<le> int (length c)"
  shows "c \<in> set doc_iter \<Longrightarrow> 0 \<le> current_size \<Longrightarrow>
    segment_loop fuel segment_size tolerance carry doc_iter current_segment current_size = None"
proof (induction fuel arbitrary: carry doc_iter current_segment current_size)
  case 0
  show ?case by simp
next
  case (Suc fuel)
  have "next_chunk carry doc_iter \<noteq> None"
  proof
    assume "next_chunk carry doc_iter = None"
    then have "doc_iter = []" using next_chunk_None by blast
    then show False using Suc.prems(1) by simp
  qed
  then obtain chunk doc_iter' where nx: "next_chunk carry doc_iter = Some (chunk, doc_iter')"
    by (cases "next_chunk carry doc_iter") auto
  define sz where "sz = current_size + int (length chunk)"
  define tl where "tl = sz - segment_size"
  define ts where "ts = segment_size - (sz - int (length chunk))"
  have nosplit: "\<not> (0 \<le> tolerance \<and> tolerance < of_int (min tl ts))" using assms(1) by simp
  have sz0: "0 \<le> sz" using Suc.prems(2) by (simp add: sz_def)
  show ?case
  proof (cases "c \<in> set doc_iter'")
    case True
    note IH = Suc.IH[OF True]
    consider (cont) "\<not> segment_size \<le> sz"
      | (evict) "segment_size \<le> sz" "ts \<le> tl"
      | (keep) "segment_size \<le> sz" "\<not> ts \<le> tl"
      by blast
    then show ?thesis
    proof cases
      case cont
      show ?thesis using step_cont[OF nx cont[unfolded sz_def]] IH[of sz] sz0 by (simp add: sz_def)
    next
      case evict
      show ?thesis
        using step_evict[OF nx evict(1)[unfolded sz_def] nosplit[unfolded sz_def tl_def ts_def]
          evict(2)[unfolded sz_def tl_def ts_def]] IH[of 0] by (simp add: yield_def)
    next
      case keep
      show ?thesis
        using step_keep[OF nx keep(1)[unfolded sz_def] nosplit[unfolded sz_def tl_def ts_def]
          keep(2)[unfolded sz_def tl_def ts_def]] IH[of 0] by (simp add: yield_def)
    qed
  next
    case False
    then have ch: "chunk = c" using next_chunk_cases[OF nx] Suc.prems(1) by auto
    have 1: "segment_size \<le> sz" using assms(2,3) Suc.prems(2) by (simp add: sz_def ch)
    have 2: "ts \<le> tl" using assms(2,3) Suc.prems(2) by (simp add: sz_def tl_def ts_def ch)
    have "segment_loop (Suc fuel) segment_size tolerance carry doc_iter current_segment current_size
        = yield current_segment (segment_loop fuel segment_size tolerance (Some chunk) doc_iter' [] 0)"
      by (rule step_evict[OF nx 1[unfolded sz_def] nosplit[unfolded sz_def tl_def ts_def]
          2[unfolded sz_def tl_def ts_def]])
    also have "segment_loop fuel segment_size tolerance (Some chunk) doc_iter' [] 0 = None"
      unfolding ch by (rule diverges_sole[OF assms])
    finally show ?thesis by (simp add: yield_def)
  qed
qed

lemma negative_tolerance_single_chunk:
  assumes "tolerance < 0" "segment_size \<le> int (length c)" "int (length c) < 2 * segment_size"
  shows "segment_fuzzy round_product (Suc (Suc fuel)) [c] segment_size tolerance
       = Inr (Some [[c]])"
proof -
  have e: "effective_tolerance round_product segment_size tolerance = Inr tolerance"
    using assms(1) by (simp add: effective_tolerance_def)
  have nx: "next_chunk None [c] = Some (c, [])" by simp
  have "segment_loop (Suc (Suc fuel)) segment_size tolerance None [c] [] 0
      = yield ([] @ [c]) (segment_loop (Suc fuel) segment_size tolerance None [] [] 0)"
    using assms by (intro step_keep[OF nx]) auto
  also have "segment_loop (Suc fuel) segment_size tolerance None [] [] 0 = Some []"
    by simp
  finally show ?thesis by (simp add: segment_fuzzy_def e yield_def)
qed

text \<open>
  Claim C3. The tokens yielded are those of the input, in order, whenever the generator
  reaches its end (\<open>segment_fuzzy_lossless\<close>), and the example of the claim gives its
  four segments. But the claim fails where the generator does not reach its end: a chunk
  that stands alone in the current segment and is evicted is carried over and evicted
  again, for ever, and neither its tokens nor those of the chunks after it are yielded.
  This happens with a negative tolerance for a chunk at least twice as long as the
  target size, and with a tolerance that is not below the target size as well.
\<close>

theorem segment_fuzzy_tokens_after_oversized_chunk_lost:
  "segment_fuzzy round_product fuel [[''x''], [''a'', ''b'', ''c'', ''d''], [''y'']] 2 (- 1)
     = Inr None
   \<and> segment_fuzzy round_product fuel [[''a'', ''b'', ''c'', ''d''], [''y'']] 2 5 = Inr None"
proof -
  have e: "effective_tolerance round_product 2 (- 1) = Inr (- 1)"
    "effective_tolerance round_product 2 5 = Inr 5"
    by (simp_all add: effective_tolerance_def)
  have A: "segment_loop fuel 2 (- 1) None [[''x''], [''a'', ''b'', ''c'', ''d''], [''y'']] [] 0 = None"
    by (rule negative_tolerance_oversized_chunk[where c = "[''a'', ''b'', ''c'', ''d'']"]) simp_all
  have sole: "segment_loop n 2 5 (Some [''a'', ''b'', ''c'', ''d'']) [[''y'']] [] 0 = None" for n
  proof (induction n)
    case 0
    show ?case by simp
  next
    case (Suc n)
    have nx: "next_chunk (Some [''a'', ''b'', ''c'', ''d'']) [[''y'']]
        = Some ([''a'', ''b'', ''c'', ''d''], [[''y'']])" by simp
    have "segment_loop (Suc n) 2 5 (Some [''a'', ''b'', ''c'', ''d'']) [[''y'']] [] 0
        = yield [] (segment_loop n 2 5 (Some [''a'', ''b'', ''c'', ''d'']) [[''y'']] [] 0)"
      by (rule step_evict[OF nx]) simp_all
    then show ?case using Suc by (simp add: yield_def)
  qed
  have B: "segment_loop fuel 2 5 None [[''a'', ''b'', ''c'', ''d''], [''y'']] [] 0 = None"
  proof (cases fuel)
    case 0
    then show ?thesis by simp
  next
    case (Suc n)
    have nx: "next_chunk None [[''a'', ''b'', ''c'', ''d''], [''y'']]
        = Some ([''a'', ''b'', ''c'', ''d''], [[''y'']])" by simp
    have "segment_loop (Suc n) 2 5 None [[''a'', ''b'', ''c'', ''d''], [''y'']] [] 0
        = yield [] (segment_loop n 2 5 (Some [''a'', ''b'', ''c'', ''d'']) [[''y'']] [] 0)"
      by (rule step_evict[OF nx]) simp_all
    then show ?thesis using sole Suc by (simp add: yield_def)
  qed
  show ?thesis using A B by (simp add: segment_fuzzy_def e)
qed

section \<open>Properties of the dictionary builder\<close>

lemma those_map_as_token: "those (map as_token (map Token xs)) = Some xs"
  by (induction xs) auto

lemma those_map_as_list: "those (map as_list (map ListOf xss)) = Some xss"
  by (induction xss) auto

lemma those_as_list_Token: "those (map as_list (map Token xs)) = (if xs = [] then Some [] else None)"
  by (cases xs) auto

lemma enumerate_from_1_props:
  "map fst (enumerate_from_1 xs) = xs"
  "map snd (enumerate_from_1 xs) = [1 .. int (length xs)]"
  unfolding enumerate_from_1_def
  by (rule map_fst_zip, simp) (rule map_snd_zip, simp)

lemma create_dictionary_flat:
  "create_dictionary set_order (map Token xs) = Inr (enumerate_from_1 (set_order xs))
   \<or> xs = [] \<and> create_dictionary set_order (map Token xs) = Inr (enumerate_from_1 (set_order (set_order [])))"
  by (simp add: create_dictionary_def those_map_as_token those_as_list_Token del: map_map)


lemma create_dictionary_nested:
  "create_dictionary set_order (map ListOf xss) = Inr (enumerate_from_1 (set_order (set_order (concat xss))))"
  by (simp add: create_dictionary_def those_map_as_list del: map_map)

lemma enumerate_1_to_N:
  assumes "distinct ys" "set ys = toks"
  shows "distinct (map fst (enumerate_from_1 ys)) \<and> set (map fst (enumerate_from_1 ys)) = toks
       \<and> distinct (map snd (enumerate_from_1 ys))
       \<and> mset (map snd (enumerate_from_1 ys)) = mset [1 .. int (card toks)]"
  using assms distinct_card[of ys]
  by (auto simp: enumerate_from_1_props)

text \<open>
  Claim C5. Whatever the iteration order of Python's sets, \<open>create_dictionary\<close> on a
  flat token list returns a dictionary whose keys are exactly the distinct tokens, each
  once, and whose values are pairwise different and are, as a multiset, the integers
  \<open>1..N\<close> for \<open>N\<close> the number of distinct tokens; on a list of token lists it
  returns such a dictionary for the union of the tokens of all lists.
\<close>

theorem create_dictionary_permutation:
  assumes "set_iteration set_order"
  shows "(\<exists>d. create_dictionary set_order (map Token xs) = Inr d
              \<and> distinct (map fst d) \<and> set (map fst d) = set xs
              \<and> distinct (map snd d) \<and> mset (map snd d) = mset [1 .. int (card (set xs))])
       \<and> (\<exists>d. create_dictionary set_order (map ListOf xss) = Inr d
              \<and> distinct (map fst d) \<and> set (map fst d) = \<Union> (set ` set xss)
              \<and> distinct (map snd d)
              \<and> mset (map snd d) = mset [1 .. int (card (\<Union> (set ` set xss)))])"
proof -
  have so: "distinct (set_order ys)" "set (set_order ys) = set ys" for ys
    using assms by (auto simp: set_iteration_def)
  have f: "create_dictionary set_order (map Token xs) = Inr (enumerate_from_1 (set_order xs))
      \<or> create_dictionary set_order (map Token xs) = Inr (enumerate_from_1 (set_order (set_order xs)))"
    using create_dictionary_flat[of set_order xs] by auto
  have "distinct (set_order xs) \<and> set (set_order xs) = set xs"
       "distinct (set_order (set_order xs)) \<and> set (set_order (set_order xs)) = set xs"
    by (simp_all add: so)
  then have A: "\<exists>d. create_dictionary set_order (map Token xs) = Inr d
              \<and> distinct (map fst d) \<and> set (map fst d) = set xs
              \<and> distinct (map snd d) \<and> mset (map snd d) = mset [1 .. int (card (set xs))]"
    using f enumerate_1_to_N[of "set_order xs" "set xs"]
      enumerate_1_to_N[of "set_order (set_order xs)" "set xs"] by blast
  have "distinct (set_order (set_order (concat xss)))
      \<and> set (set_order (set_order (concat xss))) = \<Union> (set ` set xss)"
    by (simp add: so)
  then have B: "\<exists>d. create_dictionary set_order (map ListOf xss) = Inr d
              \<and> distinct (map fst d) \<and> set (map fst d) = \<Union> (set ` set xss)
              \<and> distinct (map snd d)
              \<and> mset (map snd d) = mset [1 .. int (card (\<Union> (set ` set xss)))]"
    using create_dictionary_nested[of set_order xss]
      enumerate_1_to_N[of "set_order (set_order (concat xss))" "\<Union> (set ` set xss)"] by blast
  show ?thesis using A B by blast
qed

text \<open>
  The theorem with \<open>remdups\<close> as the iteration order, on the flat list
  \<open>a, b, a\<close> and on the nested list \<open>[a, b], [c, a]\<close>.
\<close>

theorem create_dictionary_permutation_witness:
  "set_iteration (remdups :: string list \<Rightarrow> string list)
   \<and> create_dictionary remdups (map Token [''a'', ''b'', ''a'']) = Inr [(''b'', 1), (''a'', 2)]
   \<and> create_dictionary remdups (map ListOf [[''a'', ''b''], [''c'', ''a'']])
        = Inr [(''b'', 1), (''c'', 2), (''a'', 3)]
   \<and> (\<exists>d. create_dictionary remdups (map Token [''a'', ''b'', ''a'']) = Inr d
          \<and> distinct (map fst d) \<and> set (map fst d) = set [''a'', ''b'', ''a'']
          \<and> distinct (map snd d) \<and> mset (map snd d) = mset [1 .. int (card (set [''a'', ''b'', ''a'']))])"
proof -
  have s: "set_iteration (remdups :: string list \<Rightarrow> string list)"
    by (simp add: set_iteration_def)
  have e1: "create_dictionary remdups (map Token [''a'', ''b'', ''a'']) = Inr [(''b'', 1), (''a'', 2)]"
    by (simp add: create_dictionary_def enumerate_from_1_def upto.simps)
  have e2: "create_dictionary remdups (map ListOf [[''a'', ''b''], [''c'', ''a'']])
        = Inr [(''b'', 1), (''c'', 2), (''a'', 3)]"
    by (simp add: create_dictionary_def enumerate_from_1_def upto.simps)
  from create_dictionary_permutation[OF s, of "[''a'', ''b'', ''a'']" "[]"]
  have "\<exists>d. create_dictionary remdups (map Token [''a'', ''b'', ''a'']) = Inr d
          \<and> distinct (map fst d) \<and> set (map fst d) = set [''a'', ''b'', ''a'']
          \<and> distinct (map snd d) \<and> mset (map snd d) = mset [1 .. int (card (set [''a'', ''b'', ''a'']))]"
    by blast
  then show ?thesis using s e1 e2 by blast
qed

section \<open>Properties of the sparse counter\<close>

subsection \<open>Counter\<close>

lemma counter_get_update:
  "counter_get (AList.update x v c) y = (if y = x then v else counter_get c y)"
  by (simp add: counter_get_def update_conv')

lemma Counter_foldl:
  "distinct (map fst c) \<Longrightarrow>
   distinct (map fst (foldl (\<lambda>c x. AList.update x (counter_get c x + 1) c) c xs))
   \<and> fst ` set (foldl (\<lambda>c x. AList.update x (counter_get c x + 1) c) c xs) = fst ` set c \<union> set xs
   \<and> (\<forall>y. counter_get (foldl (\<lambda>c x. AList.update x (counter_get c x + 1) c) c xs) y
          = counter_get c y + int (count_list xs y))"
proof (induction xs arbitrary: c)
  case Nil
  then show ?case by simp
next
  case (Cons x xs)
  have d: "distinct (map fst (AList.update x (counter_get c x + 1) c))"
    using Cons.prems by (rule distinct_update)
  from Cons.IH[OF d] show ?case
    by (auto simp: counter_get_update dom_update)
qed

lemma Counter_distinct: "distinct (map fst (Counter xs))"
  using Counter_foldl[of "[]" xs] by (simp add: Counter_def)

lemma Counter_keys: "fst ` set (Counter xs) = set xs"
  using Counter_foldl[of "[]" xs] by (simp add: Counter_def)

lemma Counter_get: "counter_get (Counter xs) y = int (count_list xs y)"
  using Counter_foldl[of "[]" xs] by (simp add: Counter_def counter_get_def)

lemma Counter_empty: "Counter xs = [] \<longleftrightarrow> xs = []"
  using Counter_keys[of xs] by (cases xs) auto

lemma counter_get_sum:
  "distinct (map fst c) \<Longrightarrow> sum_list (map snd [item \<leftarrow> c. fst item = t]) = counter_get c t"
proof (induction c)
  case Nil
  then show ?case by (simp add: counter_get_def)
next
  case (Cons p c)
  obtain k v where p: "p = (k, v)" by (cases p)
  show ?case
  proof (cases "k = t")
    case True
    then have "[item \<leftarrow> c. fst item = t] = []" using Cons.prems p by (auto simp: filter_empty_conv)
    then show ?thesis using True p by (simp add: counter_get_def)
  next
    case False
    then show ?thesis using Cons p by (simp add: counter_get_def)
  qed
qed

lemma counter_get_member:
  "distinct (map fst c) \<Longrightarrow> (t, v) \<in> set c \<Longrightarrow> counter_get c t = v"
  by (simp add: counter_get_def)

subsection \<open>The index and the loop that fills the table\<close>

lemma sparse_index_loop_shape:
  "sparse_index_loop lc keys tuples = Inr idx \<Longrightarrow>
     (\<forall>k \<in> set keys. map_of lc k \<noteq> None)
     \<and> idx = tuples @ concat (map (\<lambda>k. idx_rows k (counter_of lc k)) keys)"
proof (induction keys arbitrary: tuples)
  case Nil
  then show ?case by simp
next
  case (Cons k keys)
  from Cons.prems obtain c where c: "map_of lc k = Some c"
    by (auto simp: dict_get_def split: option.splits)
  with Cons.prems have "sparse_index_loop lc keys (tuples @ idx_rows k c) = Inr idx"
    by (simp add: dict_get_def idx_rows_def)
  from Cons.IH[OF this] c show ?case by (simp add: counter_of_def)
qed

lemma sparse_index_loop_total:
  "\<forall>k \<in> set keys. map_of lc k \<noteq> None \<Longrightarrow> \<exists>idx. sparse_index_loop lc keys tuples = Inr idx"
  by (induction keys arbitrary: tuples) (auto simp: dict_get_def)

lemma update_map_fun:
  "distinct idx \<Longrightarrow> k \<in> set idx \<Longrightarrow>
   AList.update k v (map (\<lambda>i. (i, f i)) idx) = map (\<lambda>i. (i, (f(k := v)) i)) idx"
proof (induction idx)
  case Nil
  then show ?case by simp
next
  case (Cons a idx)
  show ?case
  proof (cases "a = k")
    case True
    then have "k \<notin> set idx" using Cons.prems by simp
    then have "map (\<lambda>i. (i, (f(k := v)) i)) idx = map (\<lambda>i. (i, f i)) idx" by (intro map_cong) auto
    then show ?thesis using True by simp
  next
    case False
    then show ?thesis using Cons by simp
  qed
qed

lemma fill_tokens:
  "distinct idx \<Longrightarrow> \<forall>t \<in> set ts. (d, t) \<in> set idx \<Longrightarrow>
   foldl (\<lambda>table t. AList.update (d, t) (g t) table) (map (\<lambda>i. (i, f i)) idx) ts
     = map (\<lambda>i. (i, if fst i = d \<and> snd i \<in> set ts then g (snd i) else f i)) idx"
proof (induction ts arbitrary: f)
  case Nil
  then show ?case by simp
next
  case (Cons t ts)
  have "AList.update (d, t) (g t) (map (\<lambda>i. (i, f i)) idx) = map (\<lambda>i. (i, (f((d, t) := g t)) i)) idx"
    using Cons.prems by (intro update_map_fun) auto
  then have "foldl (\<lambda>table t. AList.update (d, t) (g t) table) (map (\<lambda>i. (i, f i)) idx) (t # ts)
     = map (\<lambda>i. (i, if fst i = d \<and> snd i \<in> set ts then g (snd i) else (f((d, t) := g t)) i)) idx"
    using Cons.IH[of "f((d, t) := g t)"] Cons.prems by simp
  also have "\<dots> = map (\<lambda>i. (i, if fst i = d \<and> snd i \<in> set (t # ts) then g (snd i) else f i)) idx"
    by (intro map_cong) auto
  finally show ?case .
qed

lemma fill_loop_result:
  assumes "distinct idx"
  shows "\<forall>d \<in> set ds. map_of lc d \<noteq> None \<and> d \<in> fst ` set idx \<Longrightarrow>
     fill_loop lc idx ds (map (\<lambda>i. (i, f i)) idx)
       = Inr (map (\<lambda>i. (i, if fst i \<in> set ds then counter_get (counter_of lc (fst i)) (snd i) else f i)) idx)"
proof (induction ds arbitrary: f)
  case Nil
  then show ?case by simp
next
  case (Cons d ds)
  obtain c where c: "map_of lc d = Some c" using Cons.prems by auto
  have "[val \<leftarrow> idx. fst val = d] \<noteq> []" using Cons.prems by (auto simp: filter_empty_conv)
  then obtain val vals where g: "[val \<leftarrow> idx. fst val = d] = val # vals"
    by (cases "[val \<leftarrow> idx. fst val = d]") auto
  let ?ts = "map snd [val \<leftarrow> idx. fst val = d]"
  have mem: "\<forall>t \<in> set ?ts. (d, t) \<in> set idx" by auto
  have all: "fst i = d \<Longrightarrow> i \<in> set idx \<Longrightarrow> snd i \<in> set ?ts" for i by force
  let ?f' = "\<lambda>i. if fst i = d then counter_get c (snd i) else f i"
  have "foldl (\<lambda>table t. AList.update (d, t) (counter_get c t) table) (map (\<lambda>i. (i, f i)) idx) ?ts
      = map (\<lambda>i. (i, if fst i = d \<and> snd i \<in> set ?ts then counter_get c (snd i) else f i)) idx"
    by (rule fill_tokens[OF assms mem])
  also have "\<dots> = map (\<lambda>i. (i, ?f' i)) idx"
    using all by (intro map_cong) auto
  finally have step: "fill_loop lc idx (d # ds) (map (\<lambda>i. (i, f i)) idx)
       = fill_loop lc idx ds (map (\<lambda>i. (i, ?f' i)) idx)"
    using g c by (simp add: dict_get_def)
  have "fill_loop lc idx ds (map (\<lambda>i. (i, ?f' i)) idx)
      = Inr (map (\<lambda>i. (i, if fst i \<in> set ds then counter_get (counter_of lc (fst i)) (snd i) else ?f' i)) idx)"
    using Cons.prems by (intro Cons.IH) auto
  also have "map (\<lambda>i. (i, if fst i \<in> set ds then counter_get (counter_of lc (fst i)) (snd i) else ?f' i)) idx
      = map (\<lambda>i. (i, if fst i \<in> set (d # ds) then counter_get (counter_of lc (fst i)) (snd i) else f i)) idx"
    using c by (intro map_cong) (auto simp: counter_of_def)
  finally show ?case using step by simp
qed

lemma counter_of_distinct:
  "wf_largecounter lc \<Longrightarrow> distinct (map fst (counter_of lc k))"
proof (cases "map_of lc k")
  case None
  then show ?thesis by (simp add: counter_of_def)
next
  case (Some c)
  assume "wf_largecounter lc"
  moreover have "(k, c) \<in> set lc" using Some by (rule map_of_SomeD)
  ultimately show ?thesis using Some by (auto simp: wf_largecounter_def list_all_iff counter_of_def)
qed

lemma idx_rows_fst: "fst ` set (idx_rows k c) = {k}"
  by (cases c) (auto simp: idx_rows_def image_image)

lemma idx_rows_distinct: "distinct (map fst c) \<Longrightarrow> distinct (idx_rows k c)"
  by (cases c) (auto simp: idx_rows_def distinct_map inj_on_def intro!: comp_inj_on)

lemma distinct_concat_keys:
  "distinct ks \<Longrightarrow> (\<And>k. distinct (F k)) \<Longrightarrow> (\<And>k. fst ` set (F k) = {k}) \<Longrightarrow>
   distinct (concat (map F ks))"
proof (induction ks)
  case Nil
  then show ?case by simp
next
  case (Cons k ks)
  have "set (F k) \<inter> set (concat (map F ks)) = {}"
  proof (rule ccontr)
    assume "set (F k) \<inter> set (concat (map F ks)) \<noteq> {}"
    then obtain x k' where x: "x \<in> set (F k)" "k' \<in> set ks" "x \<in> set (F k')" by auto
    then have "fst x = k" "fst x = k'" using Cons.prems(3) by blast+
    then show False using x(2) Cons.prems(1) by auto
  qed
  then show ?case using Cons by simp
qed

lemma fst_set_concat_keys:
  "(\<And>k. fst ` set (F k) = {k}) \<Longrightarrow> fst ` set (concat (map F ks)) = set ks"
  by (induction ks) (auto simp: image_Un)

lemma doc_rows_of_idx_rows:
  assumes "distinct (map fst c)"
  shows "map (\<lambda>i. (i, counter_get c (snd i))) (idx_rows k c) = doc_rows k c"
proof (cases "c = []")
  case True
  then show ?thesis by (simp add: idx_rows_def doc_rows_def counter_get_def)
next
  case False
  have "map (\<lambda>item. ((k, fst item), counter_get c (fst item))) c
      = map (\<lambda>item. ((k, fst item), snd item)) c"
    using counter_get_member[OF assms] by (intro map_cong) (auto simp: prod_eq_iff)
  then show ?thesis using False by (simp add: idx_rows_def doc_rows_def comp_def)
qed

lemma length_upto_1: "length [1 .. int m] = m"
  by simp

lemma sparse_bow_of_largecounter:
  assumes wf: "wf_largecounter lc"
    and keys: "\<forall>k \<in> set [1 .. int (length lc)]. map_of lc k \<noteq> None"
  shows "\<exists>idx. create_sparse_index lc = Inr idx
      \<and> fill_loop lc idx [1 .. int (length (remdups (map fst idx)))] (map (\<lambda>i. (i, 0)) idx)
          = Inr (concat (map (\<lambda>k. doc_rows k (counter_of lc k)) [1 .. int (length lc)]))"
proof -
  let ?ks = "[1 .. int (length lc)]"
  let ?F = "\<lambda>k. idx_rows k (counter_of lc k)"
  let ?idx = "concat (map ?F ?ks)"
  obtain idx where "sparse_index_loop lc ?ks [] = Inr idx"
    using sparse_index_loop_total[OF keys] by blast
  then have loop: "sparse_index_loop lc ?ks [] = Inr ?idx"
    using sparse_index_loop_shape by fastforce
  have ci: "create_sparse_index lc = Inr ?idx"
    by (simp add: create_sparse_index_def loop from_tuples_def)
  have d: "distinct ?idx"
    by (rule distinct_concat_keys)
       (simp_all add: idx_rows_fst idx_rows_distinct counter_of_distinct[OF wf])
  have fs: "fst ` set ?idx = set ?ks"
    by (rule fst_set_concat_keys) (simp add: idx_rows_fst)
  have "length (remdups (map fst ?idx)) = card (set ?ks)"
    using fs by (simp add: length_remdups_card_conv)
  also have "\<dots> = length ?ks" by (rule distinct_card) simp
  also have "\<dots> = length lc" by simp
  finally have len: "[1 .. int (length (remdups (map fst ?idx)))] = ?ks" by simp
  have pre: "\<forall>d \<in> set ?ks. map_of lc d \<noteq> None \<and> d \<in> fst ` set ?idx"
    using keys fs by blast
  let ?h = "\<lambda>i. (i, counter_get (counter_of lc (fst i)) (snd i))"
  have "fill_loop lc ?idx ?ks (map (\<lambda>i. (i, 0)) ?idx)
      = Inr (map (\<lambda>i. (i, if fst i \<in> set ?ks then counter_get (counter_of lc (fst i)) (snd i) else 0)) ?idx)"
    by (rule fill_loop_result[OF d pre])
  also have "map (\<lambda>i. (i, if fst i \<in> set ?ks then counter_get (counter_of lc (fst i)) (snd i) else 0)) ?idx
      = map ?h ?idx"
  proof (intro map_cong refl)
    fix i assume "i \<in> set ?idx"
    then have "fst i \<in> fst ` set ?idx" by (rule imageI)
    then have "fst i \<in> set ?ks" unfolding fs .
    then show "(i, if fst i \<in> set ?ks then counter_get (counter_of lc (fst i)) (snd i) else 0) = ?h i"
      by (simp only: if_True)
  qed
  also have "map ?h ?idx = concat (map (\<lambda>k. map ?h (?F k)) ?ks)"
    by (simp add: map_concat comp_def)
  also have "\<dots> = concat (map (\<lambda>k. doc_rows k (counter_of lc k)) ?ks)"
  proof -
    have "map ?h (?F k) = doc_rows k (counter_of lc k)" for k
    proof -
      have "map ?h (?F k) = map (\<lambda>i. (i, counter_get (counter_of lc k) (snd i))) (?F k)"
        using idx_rows_fst[of k "counter_of lc k"] by (intro map_cong) auto
      then show ?thesis
        using doc_rows_of_idx_rows[OF counter_of_distinct[OF wf]] by simp
    qed
    then show ?thesis by simp
  qed
  finally show ?thesis using ci len by auto
qed

subsection \<open>Building largecounter\<close>

lemma lookup_all_Inr:
  "lookup_all d ks = Inr vs \<longleftrightarrow> set ks \<subseteq> dom (map_of d) \<and> vs = map (\<lambda>k. the (map_of d k)) ks"
proof (induction ks arbitrary: vs)
  case Nil
  then show ?case by auto
next
  case (Cons k ks)
  show ?case
  proof (cases "map_of d k")
    case None
    then show ?thesis by (auto simp: dict_get_def)
  next
    case (Some v)
    show ?thesis
    proof (cases "lookup_all d ks")
      case (Inl e)
      then have "\<not> set ks \<subseteq> dom (map_of d)" using Cons.IH by (metis sum.distinct(1))
      then show ?thesis using Some Inl by (auto simp: dict_get_def)
    next
      case (Inr vs')
      then show ?thesis using Some Cons.IH[of vs'] by (auto simp: dict_get_def)
    qed
  qed
qed

lemma update_append: "k \<notin> fst ` set al \<Longrightarrow> AList.update k v al = al @ [(k, v)]"
  by (induction al) auto

lemma set_update_subset: "set (AList.update k v al) \<subseteq> insert (k, v) (set al)"
  by (induction al) auto

lemma wf_largecounter_update:
  assumes "wf_largecounter lc" "distinct (map fst c)"
  shows "wf_largecounter (AList.update k c lc)"
proof -
  have "distinct (map fst (AList.update k c lc))"
    using assms(1) by (simp add: wf_largecounter_def distinct_update)
  moreover have "\<forall>item \<in> set (AList.update k c lc). distinct (map fst (snd item))"
    using set_update_subset[of k c lc] assms by (auto simp: wf_largecounter_def list_all_iff)
  ultimately show ?thesis by (simp add: wf_largecounter_def list_all_iff)
qed

lemma large_counter_loop_wf:
  "large_counter_loop labels toks td acc = Inr temp \<Longrightarrow> wf_largecounter acc \<Longrightarrow>
   wf_largecounter temp \<and> fst ` set (zip labels toks) \<union> fst ` set acc \<subseteq> fst ` set temp"
proof (induction labels toks td acc rule: large_counter_loop.induct)
  case (1 doc doc_labels tokens doc_tokens td acc)
  from "1.prems"(1) obtain ids where ids: "lookup_all td tokens = Inr ids"
    and r: "large_counter_loop doc_labels doc_tokens td (AList.update doc (Counter ids) acc) = Inr temp"
    by (auto split: sum.splits)
  have "wf_largecounter (AList.update doc (Counter ids) acc)"
    using "1.prems"(2) Counter_distinct by (rule wf_largecounter_update)
  from "1.IH"[OF ids r this] show ?case by (auto simp: dom_update)
qed simp_all

lemma rekey_wf:
  "rekey dd temp acc = Inr lc \<Longrightarrow> wf_largecounter acc \<Longrightarrow>
   list_all (\<lambda>item. distinct (map fst (snd item))) temp \<Longrightarrow>
   wf_largecounter lc
   \<and> (\<forall>key \<in> fst ` set temp. \<exists>i. map_of dd key = Some i \<and> i \<in> fst ` set lc)
   \<and> fst ` set acc \<subseteq> fst ` set lc"
proof (induction temp arbitrary: acc)
  case Nil
  then show ?case by simp
next
  case (Cons item temp)
  obtain key val where item: "item = (key, val)" by (cases item)
  from Cons.prems(1) item obtain i where i: "map_of dd key = Some i"
    and r: "rekey dd temp (AList.update i val acc) = Inr lc"
    by (auto simp: dict_get_def split: option.splits)
  have "wf_largecounter (AList.update i val acc)"
    using Cons.prems(2,3) item by (intro wf_largecounter_update) auto
  from Cons.IH[OF r this] Cons.prems(3) i item show ?case
    by (auto simp: dom_update)
qed

lemma large_counter_loop_distinct:
  "distinct labels \<Longrightarrow> length labels = length toks \<Longrightarrow> set labels \<inter> fst ` set acc = {} \<Longrightarrow>
   \<forall>ts \<in> set toks. set ts \<subseteq> dom (map_of td) \<Longrightarrow>
   large_counter_loop labels toks td acc
     = Inr (acc @ zip labels (map (\<lambda>ts. Counter (map (\<lambda>w. the (map_of td w)) ts)) toks))"
proof (induction labels toks td acc rule: large_counter_loop.induct)
  case (1 doc doc_labels tokens doc_tokens td acc)
  have ids: "lookup_all td tokens = Inr (map (\<lambda>w. the (map_of td w)) tokens)"
    using "1.prems"(4) by (simp add: lookup_all_Inr)
  have u: "AList.update doc (Counter (map (\<lambda>w. the (map_of td w)) tokens)) acc
      = acc @ [(doc, Counter (map (\<lambda>w. the (map_of td w)) tokens))]"
    using "1.prems"(3) by (intro update_append) auto
  have "large_counter_loop doc_labels doc_tokens td
          (AList.update doc (Counter (map (\<lambda>w. the (map_of td w)) tokens)) acc)
     = Inr (AList.update doc (Counter (map (\<lambda>w. the (map_of td w)) tokens)) acc
            @ zip doc_labels (map (\<lambda>ts. Counter (map (\<lambda>w. the (map_of td w)) ts)) doc_tokens))"
    using "1.prems" by (intro "1.IH"[OF ids]) (auto simp: dom_update)
  then show ?case using ids u by simp
qed simp_all

lemma rekey_distinct:
  "distinct (map fst temp) \<Longrightarrow> fst ` set temp \<subseteq> dom (map_of dd) \<Longrightarrow>
   inj_on (map_of dd) (fst ` set temp) \<Longrightarrow>
   (\<lambda>key. the (map_of dd key)) ` fst ` set temp \<inter> fst ` set acc = {} \<Longrightarrow>
   rekey dd temp acc = Inr (acc @ map (\<lambda>item. (the (map_of dd (fst item)), snd item)) temp)"
proof (induction temp arbitrary: acc)
  case Nil
  then show ?case by simp
next
  case (Cons item temp)
  obtain key val where item: "item = (key, val)" by (cases item)
  obtain i where i: "map_of dd key = Some i" using Cons.prems(2) item by auto
  have u: "AList.update i val acc = acc @ [(i, val)]"
    using Cons.prems(4) item i by (intro update_append) auto
  have fresh: "(\<lambda>key. the (map_of dd key)) ` fst ` set temp \<inter> fst ` set (acc @ [(i, val)]) = {}"
  proof -
    have "the (map_of dd k) \<noteq> i" if "k \<in> fst ` set temp" for k
    proof
      assume e: "the (map_of dd k) = i"
      have "k \<in> dom (map_of dd)" using Cons.prems(2) that by auto
      then obtain j where j: "map_of dd k = Some j" by blast
      with e have "map_of dd k = map_of dd key" using i by simp
      moreover have "k \<noteq> key" using that Cons.prems(1) item by auto
      ultimately show False using Cons.prems(3) that item by (auto simp: inj_on_def)
    qed
    then show ?thesis using Cons.prems(4) by auto
  qed
  have "rekey dd temp (acc @ [(i, val)])
      = Inr ((acc @ [(i, val)]) @ map (\<lambda>item. (the (map_of dd (fst item)), snd item)) temp)"
    using Cons.prems fresh by (intro Cons.IH) (auto simp: inj_on_def)
  then show ?case using item i u by (simp add: dict_get_def)
qed

lemma wf_largecounter_Nil: "wf_largecounter []"
  by (simp add: wf_largecounter_def)

lemma largecounter_wf:
  assumes "create_large_counter labels toks td = Inr temp" "rekey dd temp [] = Inr lc"
  shows "wf_largecounter lc"
    and "\<forall>l \<in> fst ` set (zip labels toks). \<exists>i. map_of dd l = Some i \<and> i \<in> fst ` set lc"
proof -
  have t: "wf_largecounter temp" "fst ` set (zip labels toks) \<subseteq> fst ` set temp"
    using large_counter_loop_wf[OF assms(1)[unfolded create_large_counter_def] wf_largecounter_Nil]
    by auto
  then have "list_all (\<lambda>item. distinct (map fst (snd item))) temp"
    by (simp add: wf_largecounter_def)
  from rekey_wf[OF assms(2) wf_largecounter_Nil this] t(2)
  show "wf_largecounter lc"
    and "\<forall>l \<in> fst ` set (zip labels toks). \<exists>i. map_of dd l = Some i \<and> i \<in> fst ` set lc"
    by (simp, meson subsetD)
qed

lemma keys_1_to_n:
  assumes "distinct (map fst lc)" "\<forall>k \<in> set [1 .. int (length lc)]. map_of lc k \<noteq> None"
  shows "fst ` set lc = {1 .. int (length lc)}"
proof -
  have sub: "{1 .. int (length lc)} \<subseteq> fst ` set lc"
    using assms(2) by (auto simp: map_of_eq_None_iff)
  have "card (fst ` set lc) = length lc"
    using distinct_card[OF assms(1)] by simp
  then have "card {1 .. int (length lc)} = card (fst ` set lc)" by simp
  with sub show ?thesis by (intro card_subset_eq[symmetric]) auto
qed

lemma create_sparse_bow_total:
  assumes "create_large_counter labels toks td = Inr temp" "rekey dd temp [] = Inr lc"
    "\<forall>k \<in> set [1 .. int (length lc)]. map_of lc k \<noteq> None"
  shows "create_sparse_bow labels toks td dd
       = Inr (concat (map (\<lambda>k. doc_rows k (counter_of lc k)) [1 .. int (length lc)]))"
proof -
  have wf: "wf_largecounter lc" using largecounter_wf(1)[OF assms(1,2)] .
  from sparse_bow_of_largecounter[OF wf assms(3)] assms(1,2)
  show ?thesis by (auto simp: create_sparse_bow_def)
qed

lemma create_sparse_bow_shape:
  assumes "create_sparse_bow labels toks td dd = Inr t"
  shows "\<exists>temp lc. create_large_counter labels toks td = Inr temp \<and> rekey dd temp [] = Inr lc
     \<and> wf_largecounter lc \<and> fst ` set lc = {1 .. int (length lc)}
     \<and> t = concat (map (\<lambda>k. doc_rows k (counter_of lc k)) [1 .. int (length lc)])"
proof -
  from assms obtain temp lc idx where
    temp: "create_large_counter labels toks td = Inr temp" and
    lc: "rekey dd temp [] = Inr lc" and
    idx: "create_sparse_index lc = Inr idx"
    by (auto simp: create_sparse_bow_def split: sum.splits)
  from idx obtain tuples where tu: "sparse_index_loop lc [1 .. int (length lc)] [] = Inr tuples"
    by (auto simp: create_sparse_index_def split: sum.splits)
  have keys: "\<forall>k \<in> set [1 .. int (length lc)]. map_of lc k \<noteq> None"
    using sparse_index_loop_shape[OF tu] by blast
  have wf: "wf_largecounter lc" using largecounter_wf(1)[OF temp lc] .
  have "t = concat (map (\<lambda>k. doc_rows k (counter_of lc k)) [1 .. int (length lc)])"
    using create_sparse_bow_total[OF temp lc keys] assms by simp
  moreover have "fst ` set lc = {1 .. int (length lc)}"
    using keys_1_to_n[OF _ keys] wf by (simp add: wf_largecounter_def)
  ultimately show ?thesis using temp lc wf by blast
qed

subsection \<open>Sums\<close>

lemma token_sum_concat:
  "token_sum (concat xss) t = sum_list (map (\<lambda>xs. token_sum xs t) xss)"
  by (induction xss) (simp_all add: token_sum_def)

lemma token_sum_doc_rows:
  assumes "distinct (map fst c)"
  shows "token_sum (doc_rows k c) t = counter_get c t"
proof (cases "c = []")
  case True
  then show ?thesis by (simp add: token_sum_def doc_rows_def token_id_def counter_get_def)
next
  case False
  have "map snd [row \<leftarrow> map (\<lambda>item. ((k, fst item), snd item)) c. token_id row = t]
      = map snd [item \<leftarrow> c. fst item = t]"
    by (induction c) (auto simp: token_id_def)
  then show ?thesis using False counter_get_sum[OF assms, of t]
    by (simp add: token_sum_def doc_rows_def)
qed

lemma sum_over_keys:
  fixes g :: "(int, int) dict \<Rightarrow> int"
  assumes "distinct (map fst lc)" "set ks = fst ` set lc" "distinct ks"
  shows "sum_list (map (\<lambda>k. g (counter_of lc k)) ks) = sum_list (map (\<lambda>p. g (snd p)) lc)"
proof -
  have "mset ks = mset (map fst lc)"
    using assms by (intro iffD1[OF set_eq_iff_mset_eq_distinct]) auto
  then have m: "mset (map (\<lambda>k. g (counter_of lc k)) ks) = mset (map (\<lambda>k. g (counter_of lc k)) (map fst lc))"
    by (simp only: mset_map)
  have "sum_list (map (\<lambda>k. g (counter_of lc k)) ks) = sum_mset (mset (map (\<lambda>k. g (counter_of lc k)) ks))"
    by (simp only: sum_mset_sum_list)
  also have "\<dots> = sum_mset (mset (map (\<lambda>k. g (counter_of lc k)) (map fst lc)))"
    by (simp only: m)
  also have "\<dots> = sum_list (map (\<lambda>k. g (counter_of lc k)) (map fst lc))"
    by (simp only: sum_mset_sum_list)
  finally have "sum_list (map (\<lambda>k. g (counter_of lc k)) ks)
      = sum_list (map (\<lambda>k. g (counter_of lc k)) (map fst lc))" .
  also have "\<dots> = sum_list (map (\<lambda>p. g (counter_of lc (fst p))) lc)"
    by (simp add: comp_def)
  also have "\<dots> = sum_list (map (\<lambda>p. g (snd p)) lc)"
  proof -
    have "counter_of lc (fst p) = snd p" if "p \<in> set lc" for p
      by (cases p) (use that assms(1) in \<open>simp add: counter_of_def\<close>)
    then have "map (\<lambda>p. g (counter_of lc (fst p))) lc = map (\<lambda>p. g (snd p)) lc"
      by (intro map_cong) auto
    then show ?thesis by (simp only:)
  qed
  finally show ?thesis .
qed

lemma token_sum_table:
  assumes "wf_largecounter lc" "fst ` set lc = {1 .. int (length lc)}"
  shows "token_sum (concat (map (\<lambda>k. doc_rows k (counter_of lc k)) [1 .. int (length lc)])) t
       = sum_list (map (\<lambda>p. counter_get (snd p) t) lc)"
proof -
  have "token_sum (concat (map (\<lambda>k. doc_rows k (counter_of lc k)) [1 .. int (length lc)])) t
      = sum_list (map (\<lambda>k. token_sum (doc_rows k (counter_of lc k)) t) [1 .. int (length lc)])"
    by (simp add: token_sum_concat comp_def)
  also have "\<dots> = sum_list (map (\<lambda>k. counter_get (counter_of lc k) t) [1 .. int (length lc)])"
    using token_sum_doc_rows[OF counter_of_distinct[OF assms(1)]] by simp
  also have "\<dots> = sum_list (map (\<lambda>p. counter_get (snd p) t) lc)"
    using assms by (intro sum_over_keys) (auto simp: wf_largecounter_def)
  finally show ?thesis .
qed

lemma map_of_groupby:
  "map_of (groupby_token_sum t) i = (if i \<in> token_id ` set t then Some (token_sum t i) else None)"
proof -
  have *: "map_of (map (\<lambda>k. (k, f k)) xs) i = (if i \<in> set xs then Some (f i) else None)"
    for f :: "int \<Rightarrow> int" and xs :: "int list"
    by (induction xs) auto
  show ?thesis by (simp add: groupby_token_sum_def *)
qed

lemma token_sum_nonzero: "token_sum t i \<noteq> 0 \<Longrightarrow> i \<in> token_id ` set t"
proof (rule ccontr)
  assume "token_sum t i \<noteq> 0" "i \<notin> token_id ` set t"
  then have "[row \<leftarrow> t. token_id row = i] = []" by (auto simp: filter_empty_conv)
  then show False using \<open>token_sum t i \<noteq> 0\<close> by (simp add: token_sum_def)
qed

section \<open>The result of \<open>remove_features\<close>\<close>

lemma lookup_all_keys:
  "set ws \<subseteq> fst ` set d \<Longrightarrow> lookup_all d ws = Inr (map (\<lambda>w. the (map_of d w)) ws)"
  by (simp add: lookup_all_Inr dom_map_of_conv_image_fst)

lemma remove_features_with_labels:
  assumes "set_iteration set_order"
  shows "\<exists>labels. set labels = {i. \<exists>w \<in> set features. map_of id_types w = Some i}
      \<and> remove_features_with set_order drop_labels sparse_bow id_types features
          = drop_labels labels sparse_bow"
proof -
  let ?ws = "[word \<leftarrow> set_order (map fst id_types). word \<in> set features]"
  have so: "set (set_order (map fst id_types)) = fst ` set id_types"
    using assms by (simp add: set_iteration_def)
  then have sub: "set ?ws \<subseteq> fst ` set id_types" by auto
  have ids: "set (map (\<lambda>w. the (map_of id_types w)) ?ws)
      = {i. \<exists>w \<in> set features. map_of id_types w = Some i}"
  proof (intro set_eqI iffI)
    fix i assume "i \<in> set (map (\<lambda>w. the (map_of id_types w)) ?ws)"
    then obtain w where w: "w \<in> set features" "w \<in> fst ` set id_types" "i = the (map_of id_types w)"
      using so by auto
    then have "w \<in> dom (map_of id_types)" by (simp add: dom_map_of_conv_image_fst)
    then have "map_of id_types w = Some i" using w(3) by auto
    then show "i \<in> {i. \<exists>w \<in> set features. map_of id_types w = Some i}" using w(1) by blast
  next
    fix i assume "i \<in> {i. \<exists>w \<in> set features. map_of id_types w = Some i}"
    then obtain w where w: "w \<in> set features" "map_of id_types w = Some i" by blast
    then have "w \<in> fst ` set id_types" by (metis domI dom_map_of_conv_image_fst)
    then have "w \<in> set ?ws" using w(1) so by simp
    then have "(\<lambda>w. the (map_of id_types w)) w \<in> (\<lambda>w. the (map_of id_types w)) ` set ?ws"
      by (rule imageI)
    then show "i \<in> set (map (\<lambda>w. the (map_of id_types w)) ?ws)" using w(2) by simp
  qed
  have "remove_features_with set_order drop_labels sparse_bow id_types features
      = drop_labels (map (\<lambda>w. the (map_of id_types w)) ?ws) sparse_bow"
    using lookup_all_keys[OF sub] by (simp add: remove_features_with_def)
  with ids show ?thesis by blast
qed

lemma remove_features_eq:
  assumes "set_iteration set_order"
  shows "remove_features set_order sparse_bow id_types features
       = Inr [row \<leftarrow> sparse_bow. \<not> (\<exists>w \<in> set features. map_of id_types w = Some (token_id row))]"
proof -
  obtain labels where l: "set labels = {i. \<exists>w \<in> set features. map_of id_types w = Some i}"
    and r: "remove_features_with set_order (\<lambda>ids table. Inr (drop_token_ids ids table))
              sparse_bow id_types features = Inr (drop_token_ids labels sparse_bow)"
    using remove_features_with_labels[OF assms, of features id_types
        "\<lambda>ids table. Inr (drop_token_ids ids table)" sparse_bow]
    by blast
  have "drop_token_ids labels sparse_bow
      = [row \<leftarrow> sparse_bow. \<not> (\<exists>w \<in> set features. map_of id_types w = Some (token_id row))]"
    unfolding drop_token_ids_def l by simp
  then show ?thesis using r by (simp add: remove_features_def)
qed

subsection \<open>Token sums and documents of the table\<close>

subsection \<open>Well-formed input\<close>

lemma count_list_map_inj:
  "inj_on f (insert w (set ts)) \<Longrightarrow> count_list (map f ts) (f w) = count_list ts w"
proof (induction ts)
  case Nil
  then show ?case by simp
next
  case (Cons t ts)
  have "inj_on f (insert w (set ts))" using Cons.prems by (auto simp: inj_on_def)
  moreover have "f t = f w \<longleftrightarrow> t = w" using Cons.prems by (auto simp: inj_on_def)
  ultimately show ?case using Cons.IH by simp
qed

lemma large_counter_loop_covers:
  "large_counter_loop labels toks td acc = Inr temp \<Longrightarrow> length toks = length labels \<Longrightarrow>
   \<forall>ts \<in> set toks. set ts \<subseteq> dom (map_of td)"
proof (induction labels toks td acc rule: large_counter_loop.induct)
  case (1 doc doc_labels tokens doc_tokens td acc)
  from "1.prems"(1) obtain ids where ids: "lookup_all td tokens = Inr ids"
    and r: "large_counter_loop doc_labels doc_tokens td (AList.update doc (Counter ids) acc) = Inr temp"
    by (auto split: sum.splits)
  from "1.IH"[OF ids r] "1.prems"(2) ids show ?case by (auto simp: lookup_all_Inr)
qed simp_all

lemma zip_map_fst: "map (\<lambda>item. (f (fst item), snd item)) (zip xs ys) = zip (map f xs) ys"
  by (induction xs ys rule: list_induct2') auto

lemma exact_largecounter:
  assumes "distinct labels" "length toks = length labels"
    "\<forall>ts \<in> set toks. set ts \<subseteq> dom (map_of td)"
    "set labels \<subseteq> dom (map_of dd)" "inj_on (map_of dd) (set labels)"
  shows "create_large_counter labels toks td
           = Inr (zip labels (map (\<lambda>ts. Counter (map (\<lambda>w. the (map_of td w)) ts)) toks))"
    and "rekey dd (zip labels (map (\<lambda>ts. Counter (map (\<lambda>w. the (map_of td w)) ts)) toks)) []
           = Inr (zip (map (\<lambda>l. the (map_of dd l)) labels)
                      (map (\<lambda>ts. Counter (map (\<lambda>w. the (map_of td w)) ts)) toks))"
proof -
  let ?cs = "map (\<lambda>ts. Counter (map (\<lambda>w. the (map_of td w)) ts)) toks"
  show "create_large_counter labels toks td = Inr (zip labels ?cs)"
    using large_counter_loop_distinct[of labels toks "[]" td] assms(1-3)
    by (simp add: create_large_counter_def)
  have f: "map fst (zip labels ?cs) = labels" using assms(2) by (simp add: map_fst_zip)
  then have fs: "fst ` set (zip labels ?cs) = set labels" by (metis set_map)
  have z: "map (\<lambda>item. (the (map_of dd (fst item)), snd item)) (zip labels ?cs)
      = zip (map (\<lambda>l. the (map_of dd l)) labels) ?cs"
    by (rule zip_map_fst[of "\<lambda>l. the (map_of dd l)"])
  have "rekey dd (zip labels ?cs) []
      = Inr ([] @ map (\<lambda>item. (the (map_of dd (fst item)), snd item)) (zip labels ?cs))"
    using assms(1,4,5) by (intro rekey_distinct) (simp_all add: f fs)
  then show "rekey dd (zip labels ?cs) [] = Inr (zip (map (\<lambda>l. the (map_of dd l)) labels) ?cs)"
    by (simp only: append_Nil z)
qed

lemma filter_doc_rows:
  "distinct ks \<Longrightarrow> d \<in> set ks \<Longrightarrow>
   [row \<leftarrow> concat (map (\<lambda>k. doc_rows k (F k)) ks). doc_id row = d] = doc_rows d (F d)"
proof (induction ks)
  case Nil
  then show ?case by simp
next
  case (Cons k ks)
  have one: "[row \<leftarrow> doc_rows k c. doc_id row = d] = (if k = d then doc_rows k c else [])" for k c
    by (auto simp: doc_rows_def doc_id_def filter_empty_conv)
  have none: "d \<notin> set ks \<Longrightarrow> [row \<leftarrow> concat (map (\<lambda>k. doc_rows k (F k)) ks). doc_id row = d] = []"
    by (auto simp: filter_empty_conv doc_rows_def doc_id_def split: if_splits)
  show ?case
  proof (cases "k = d")
    case True
    then have "d \<notin> set ks" using Cons.prems by simp
    then show ?thesis using True one none by simp
  next
    case False
    then show ?thesis using Cons one by simp
  qed
qed

lemma doc_ids_table:
  "doc_id ` set (concat (map (\<lambda>k. doc_rows k (F k)) ks)) = set ks"
proof -
  have "doc_id ` set (doc_rows k c) = {k}" for k c
    by (cases c) (auto simp: doc_rows_def doc_id_def image_image)
  then show ?thesis by (induction ks) (auto simp: image_Un)
qed

lemma occurrences_pos:
  assumes "ts \<in> set toks" "w \<in> set ts"
  shows "0 < occurrences toks w"
proof -
  have "count_list ts w \<in> set (map (\<lambda>ts. count_list ts w) toks)" using assms(1) by auto
  then have "count_list ts w \<le> sum_list (map (\<lambda>ts. count_list ts w) toks)"
    by (rule member_le_sum_list) simp
  moreover have "0 < count_list ts w" using assms(2) count_list_0_iff[of ts w] by auto
  moreover have "occurrences toks w = int (sum_list (map (\<lambda>ts. count_list ts w) toks))"
    unfolding occurrences_def by (induction toks) simp_all
  ultimately show ?thesis by simp
qed

text \<open>Without documents the table has no rows.\<close>

lemma create_sparse_bow_no_documents:
  "create_sparse_bow [] doc_tokens type_dictionary doc_dictionary = Inr []"
  by (simp add: create_sparse_bow_def create_large_counter_def create_sparse_index_def
      from_tuples_def)

text \<open>
  Claim C1, as amended. For a list of pairwise distinct document labels with one
  token list per label, a type dictionary that is one-to-one and contains every
  token, and a document dictionary that maps the labels onto \<open>1..n\<close>,
  \<open>create_sparse_bow\<close> returns a table, and the sum of the counts of a token
  identifier over all documents is the number of occurrences of its token in the
  token lists; the collapsed table has this sum at the identifier of every token that
  occurs.
\<close>

theorem create_sparse_bow_token_sums:
  assumes "distinct doc_labels" "length doc_tokens = length doc_labels"
    and "\<forall>tokens \<in> set doc_tokens. set tokens \<subseteq> dom (map_of type_dictionary)"
    and "inj_on (map_of type_dictionary) (dom (map_of type_dictionary))"
    and "map_of doc_dictionary ` set doc_labels = Some ` {1 .. int (length doc_labels)}"
  shows "\<exists>t. create_sparse_bow doc_labels doc_tokens type_dictionary doc_dictionary = Inr t
      \<and> (\<forall>w i. map_of type_dictionary w = Some i \<longrightarrow> token_sum t i = occurrences doc_tokens w)
      \<and> (\<forall>w i. map_of type_dictionary w = Some i \<and> w \<in> \<Union> (set ` set doc_tokens)
            \<longrightarrow> map_of (groupby_token_sum t) i = Some (occurrences doc_tokens w))"
proof -
  let ?td = "\<lambda>w. the (map_of type_dictionary w)"
  let ?dd = "\<lambda>l. the (map_of doc_dictionary l)"
  let ?cs = "map (\<lambda>ts. Counter (map ?td ts)) doc_tokens"
  let ?lc = "zip (map ?dd doc_labels) ?cs"
  let ?n = "length doc_labels"
  have dom: "set doc_labels \<subseteq> dom (map_of doc_dictionary)"
  proof
    fix l assume "l \<in> set doc_labels"
    then have "map_of doc_dictionary l \<in> Some ` {1 .. int (length doc_labels)}"
      using assms(5) by blast
    then show "l \<in> dom (map_of doc_dictionary)" by auto
  qed
  have "card (map_of doc_dictionary ` set doc_labels) = card (Some ` {1 .. int ?n})"
    using assms(5) by simp
  also have "\<dots> = card {1 .. int ?n}" by (rule card_image) simp
  also have "\<dots> = card (set doc_labels)" using distinct_card[OF assms(1)] by simp
  finally have inj: "inj_on (map_of doc_dictionary) (set doc_labels)"
    by (intro eq_card_imp_inj_on) auto
  note ex = exact_largecounter[OF assms(1,2,3) dom inj]
  have len: "length ?lc = ?n" using assms(2) by simp
  have fst_lc: "fst ` set ?lc = ?dd ` set doc_labels"
  proof -
    have "map fst ?lc = map ?dd doc_labels" using assms(2) by (simp add: map_fst_zip)
    then show ?thesis by (metis set_map)
  qed
  have keys: "\<forall>k \<in> set [1 .. int (length ?lc)]. map_of ?lc k \<noteq> None"
  proof
    fix k assume "k \<in> set [1 .. int (length ?lc)]"
    then have "Some k \<in> Some ` {1 .. int ?n}" using len by simp
    then have "Some k \<in> map_of doc_dictionary ` set doc_labels" using assms(5) by simp
    then obtain l where "l \<in> set doc_labels" "map_of doc_dictionary l = Some k" by force
    then have "k \<in> ?dd ` set doc_labels" by force
    then show "map_of ?lc k \<noteq> None" using fst_lc by (simp add: map_of_eq_None_iff)
  qed
  let ?t = "concat (map (\<lambda>k. doc_rows k (counter_of ?lc k)) [1 .. int (length ?lc)])"
  have t: "create_sparse_bow doc_labels doc_tokens type_dictionary doc_dictionary = Inr ?t"
    by (rule create_sparse_bow_total[OF ex keys])
  have wf: "wf_largecounter ?lc" by (rule largecounter_wf(1)[OF ex])
  have k1n: "fst ` set ?lc = {1 .. int (length ?lc)}"
    using keys_1_to_n[OF _ keys] wf by (simp add: wf_largecounter_def)
  have sum: "token_sum ?t i = occurrences doc_tokens w" if w: "map_of type_dictionary w = Some i" for w i
  proof -
    have "token_sum ?t i = sum_list (map (\<lambda>p. counter_get (snd p) i) ?lc)"
      by (rule token_sum_table[OF wf k1n])
    also have "\<dots> = sum_list (map (\<lambda>c. counter_get c i) (map snd ?lc))"
      by (simp only: map_map comp_def)
    also have "map snd ?lc = ?cs" using assms(2) by (simp add: map_snd_zip)
    also have "sum_list (map (\<lambda>c. counter_get c i) ?cs)
        = sum_list (map (\<lambda>ts. int (count_list (map ?td ts) i)) doc_tokens)"
      by (simp add: comp_def Counter_get)
    also have "map (\<lambda>ts. int (count_list (map ?td ts) i)) doc_tokens
        = map (\<lambda>ts. int (count_list ts w)) doc_tokens"
    proof (intro map_cong refl)
      fix ts assume ts: "ts \<in> set doc_tokens"
      have "inj_on ?td (insert w (set ts))"
      proof (rule inj_onI)
        fix x y assume x: "x \<in> insert w (set ts)" and y: "y \<in> insert w (set ts)" and e: "?td x = ?td y"
        have d: "x \<in> dom (map_of type_dictionary)" "y \<in> dom (map_of type_dictionary)"
          using x y w ts assms(3) by auto
        then have "map_of type_dictionary x = map_of type_dictionary y" using e by auto
        then show "x = y" using assms(4) d by (auto simp: inj_on_def)
      qed
      then have "count_list (map ?td ts) (?td w) = count_list ts w" by (rule count_list_map_inj)
      then show "int (count_list (map ?td ts) i) = int (count_list ts w)" using w by simp
    qed
    finally show ?thesis by (simp add: occurrences_def)
  qed
  have grp: "map_of (groupby_token_sum ?t) i = Some (occurrences doc_tokens w)"
    if w: "map_of type_dictionary w = Some i" and o: "w \<in> \<Union> (set ` set doc_tokens)" for w i
  proof -
    have "0 < occurrences doc_tokens w" using o occurrences_pos by fastforce
    then have "token_sum ?t i \<noteq> 0" using sum[OF w] by simp
    then have "i \<in> token_id ` set ?t" by (rule token_sum_nonzero)
    then show ?thesis using sum[OF w] by (simp only: map_of_groupby if_True)
  qed
  show ?thesis using t sum grp by blast
qed

text \<open>
  The theorem at the labels \<open>d1\<close> and the tokens \<open>a, b, b\<close>: the collapsed sums
  are 1 for \<open>a\<close> and 2 for \<open>b\<close>.
\<close>

theorem create_sparse_bow_token_sums_witness:
  "create_sparse_bow [''d1''] [[''a'', ''b'', ''b'']] [(''a'', 1), (''b'', 2)] [(''d1'', 1)]
      = Inr [((1, 1), 1), ((1, 2), 2)]
   \<and> map_of (groupby_token_sum [((1, 1), 1), ((1, 2), 2)]) 1 = Some (occurrences [[''a'', ''b'', ''b'']] ''a'')
   \<and> map_of (groupby_token_sum [((1, 1), 1), ((1, 2), 2)]) 2 = Some (occurrences [[''a'', ''b'', ''b'']] ''b'')
   \<and> occurrences [[''a'', ''b'', ''b'']] ''a'' = 1
   \<and> occurrences [[''a'', ''b'', ''b'']] ''b'' = 2"
proof -
  have h2: "distinct [''d1'']"
    and h3: "length [[''a'', ''b'', ''b'']] = length [''d1'']" by simp_all
  have h4: "\<forall>tokens \<in> set [[''a'', ''b'', ''b'']]. set tokens \<subseteq> dom (map_of [(''a'', 1 :: int), (''b'', 2)])"
    by simp
  have h5: "inj_on (map_of [(''a'', 1 :: int), (''b'', 2)]) (dom (map_of [(''a'', 1 :: int), (''b'', 2)]))"
    by (simp add: dom_map_of_conv_image_fst)
  have h6: "map_of [(''d1'', 1 :: int)] ` set [''d1''] = Some ` {1 .. int (length [''d1''])}"
    by simp
  have e: "create_sparse_bow [''d1''] [[''a'', ''b'', ''b'']] [(''a'', 1), (''b'', 2)] [(''d1'', 1)]
      = Inr [((1, 1), 1), ((1, 2), 2)]"
    by code_simp
  have o: "occurrences [[''a'', ''b'', ''b'']] ''a'' = 1" "occurrences [[''a'', ''b'', ''b'']] ''b'' = 2"
    by code_simp+
  from create_sparse_bow_token_sums[OF h2 h3 h4 h5 h6] e
  have "\<forall>w i. map_of [(''a'', 1 :: int), (''b'', 2)] w = Some i \<and> w \<in> \<Union> (set ` set [[''a'', ''b'', ''b'']])
            \<longrightarrow> map_of (groupby_token_sum [((1, 1), 1), ((1, 2), 2)]) i
                = Some (occurrences [[''a'', ''b'', ''b'']] w)"
    by simp
  then have "map_of (groupby_token_sum [((1, 1), 1), ((1, 2), 2)]) 1 = Some (occurrences [[''a'', ''b'', ''b'']] ''a'')"
    "map_of (groupby_token_sum [((1, 1), 1), ((1, 2), 2)]) 2 = Some (occurrences [[''a'', ''b'', ''b'']] ''b'')"
    by simp_all
  then show ?thesis using e o by simp
qed

text \<open>
  Claim C1 as stated, for every list of labels, fails when a label comes twice: the
  counter of the first document \<open>d\<close> is overwritten by that of the second, so the
  token \<open>a\<close>, which occurs once, has no row and no sum in the table.
\<close>

theorem create_sparse_bow_duplicate_label_counterexample:
  "create_sparse_bow [''d'', ''d''] [[''a''], [''b'']] [(''a'', 1), (''b'', 2)] [(''d'', 1)]
      = Inr [((1, 2), 1)]
   \<and> map_of (groupby_token_sum [((1, 2), 1)]) 1 = None
   \<and> token_sum [((1, 2), 1)] 1 = 0
   \<and> occurrences [[''a''], [''b'']] ''a'' = 1"
  by code_simp

text \<open>
  Claim C2, as amended. A table returned by \<open>create_sparse_bow\<close> has at least one
  row for the identifier of every document label that has a token list. When the
  labels are pairwise distinct, with one token list each, and the document dictionary
  gives different labels different identifiers, a document without tokens has exactly
  one row, the row \<open>(doc_id, 0)\<close> with count 0; without these conditions the last
  document under a label or identifier decides (\<open>create_sparse_bow\<close> on the labels
  \<open>d, d\<close> with the token lists \<open>[]\<close> and \<open>[a]\<close> has the only row
  \<open>(1, 1)\<close>). \<open>remove_features\<close> does not keep the table in this form: it
  returns rows of the table it was given and never a new one, so no row \<open>(doc_id, 0)\<close>
  is added for a document that loses all its rows.
\<close>

theorem create_sparse_bow_has_every_document:
  assumes "create_sparse_bow doc_labels doc_tokens type_dictionary doc_dictionary = Inr t"
  shows "(\<forall>l \<in> fst ` set (zip doc_labels doc_tokens).
            \<exists>i. map_of doc_dictionary l = Some i \<and> i \<in> doc_id ` set t)
     \<and> (distinct doc_labels \<and> length doc_tokens = length doc_labels
          \<and> inj_on (map_of doc_dictionary) (set doc_labels)
        \<longrightarrow> (\<forall>j < length doc_labels. doc_tokens ! j = [] \<longrightarrow>
               (\<exists>i. map_of doc_dictionary (doc_labels ! j) = Some i
                  \<and> [row \<leftarrow> t. doc_id row = i] = [((i, 0), 0)])))
     \<and> (\<forall>set_order id_types features. set_iteration set_order \<longrightarrow>
          (\<exists>clean_sparse_bow.
              remove_features set_order t id_types features = Inr clean_sparse_bow
            \<and> set clean_sparse_bow \<subseteq> set t))"
proof -
  from create_sparse_bow_shape[OF assms] obtain temp lc where
    temp: "create_large_counter doc_labels doc_tokens type_dictionary = Inr temp" and
    lc: "rekey doc_dictionary temp [] = Inr lc" and
    wf: "wf_largecounter lc" and
    keys: "fst ` set lc = {1 .. int (length lc)}" and
    t: "t = concat (map (\<lambda>k. doc_rows k (counter_of lc k)) [1 .. int (length lc)])"
    by blast
  have "doc_id ` set t = set [1 .. int (length lc)]" unfolding t by (rule doc_ids_table)
  then have ids: "doc_id ` set t = fst ` set lc" using keys by simp
  have lab: "\<forall>l \<in> fst ` set (zip doc_labels doc_tokens).
        \<exists>i. map_of doc_dictionary l = Some i \<and> i \<in> fst ` set lc"
    by (rule largecounter_wf(2)[OF temp lc])
  have A: "\<forall>l \<in> fst ` set (zip doc_labels doc_tokens).
            \<exists>i. map_of doc_dictionary l = Some i \<and> i \<in> doc_id ` set t"
    using lab ids by simp
  have B: "\<exists>i. map_of doc_dictionary (doc_labels ! j) = Some i
                  \<and> [row \<leftarrow> t. doc_id row = i] = [((i, 0), 0)]"
    if d: "distinct doc_labels" and l: "length doc_tokens = length doc_labels"
      and inj: "inj_on (map_of doc_dictionary) (set doc_labels)"
      and j: "j < length doc_labels" and e: "doc_tokens ! j = []" for j
  proof -
    let ?td = "\<lambda>w. the (map_of type_dictionary w)"
    let ?dd = "\<lambda>l. the (map_of doc_dictionary l)"
    let ?cs = "map (\<lambda>ts. Counter (map ?td ts)) doc_tokens"
    have cov: "\<forall>ts \<in> set doc_tokens. set ts \<subseteq> dom (map_of type_dictionary)"
      using large_counter_loop_covers[OF temp[unfolded create_large_counter_def] l] .
    have fz: "fst ` set (zip doc_labels doc_tokens) = set doc_labels"
    proof -
      have "map fst (zip doc_labels doc_tokens) = doc_labels" using l by (simp add: map_fst_zip)
      then show ?thesis by (metis set_map)
    qed
    have dom: "set doc_labels \<subseteq> dom (map_of doc_dictionary)"
      using lab fz by auto
    note ex = exact_largecounter[OF d l cov dom inj]
    have lc_eq: "lc = zip (map ?dd doc_labels) ?cs" using ex temp lc by simp
    let ?i = "?dd (doc_labels ! j)"
    have m: "map_of doc_dictionary (doc_labels ! j) = Some ?i"
      using dom j by (metis domD nth_mem option.sel subsetD)
    have "lc ! j = (?i, Counter (map ?td (doc_tokens ! j)))" using j l by (simp add: lc_eq)
    moreover have "j < length lc" using j l by (simp add: lc_eq)
    ultimately have mem: "(?i, Counter (map ?td (doc_tokens ! j))) \<in> set lc" by (metis nth_mem)
    then have c: "counter_of lc ?i = []"
      using wf e by (simp add: counter_of_def wf_largecounter_def Counter_def)
    have "?i \<in> fst ` set lc" using mem by force
    then have "?i \<in> set [1 .. int (length lc)]" using keys by simp
    then have "[row \<leftarrow> t. doc_id row = ?i] = doc_rows ?i (counter_of lc ?i)"
      unfolding t by (intro filter_doc_rows) simp_all
    then have "[row \<leftarrow> t. doc_id row = ?i] = [((?i, 0), 0)]" using c by (simp add: doc_rows_def)
    with m show ?thesis by blast
  qed
  have C: "\<exists>clean_sparse_bow.
              remove_features set_order t id_types features = Inr clean_sparse_bow
            \<and> set clean_sparse_bow \<subseteq> set t"
    if "set_iteration set_order" for set_order id_types features
    by (simp add: remove_features_eq[OF that])
  show ?thesis
  proof (intro conjI)
    show "\<forall>l \<in> fst ` set (zip doc_labels doc_tokens).
            \<exists>i. map_of doc_dictionary l = Some i \<and> i \<in> doc_id ` set t"
      by (rule A)
    show "distinct doc_labels \<and> length doc_tokens = length doc_labels
          \<and> inj_on (map_of doc_dictionary) (set doc_labels)
        \<longrightarrow> (\<forall>j < length doc_labels. doc_tokens ! j = [] \<longrightarrow>
               (\<exists>i. map_of doc_dictionary (doc_labels ! j) = Some i
                  \<and> [row \<leftarrow> t. doc_id row = i] = [((i, 0), 0)]))"
      using B by blast
    show "\<forall>set_order id_types features. set_iteration set_order \<longrightarrow>
          (\<exists>clean_sparse_bow.
              remove_features set_order t id_types features = Inr clean_sparse_bow
            \<and> set clean_sparse_bow \<subseteq> set t)"
      using C by blast
  qed
qed

text \<open>
  Claim C2 as stated, that every operation on the table keeps a row for every document,
  fails for \<open>remove_features\<close>: removing the only token of the only document
  leaves a table without any row, not the row \<open>(1, 0)\<close> with count 0.
\<close>

theorem remove_features_drops_document_counterexample:
  "create_sparse_bow [''d1''] [[''a'']] [(''a'', 1)] [(''d1'', 1)] = Inr [((1, 1), 1)]
   \<and> remove_features remdups [((1, 1), 1)] [(''a'', 1)] [''a''] = Inr []"
  by code_simp

text \<open>
  The theorem at two documents, the second of which has no tokens.
\<close>

theorem create_sparse_bow_has_every_document_witness:
  "create_sparse_bow [''d1'', ''d2''] [[''a''], []] [(''a'', 1)] [(''d1'', 1), (''d2'', 2)]
      = Inr [((1, 1), 1), ((2, 0), 0)]
   \<and> (\<exists>i. map_of [(''d1'', 1), (''d2'', 2)] ''d1'' = Some i
          \<and> i \<in> doc_id ` set [((1, 1), 1), ((2, 0), 0)])
   \<and> (\<exists>i. map_of [(''d1'', 1), (''d2'', 2)] ([''d1'', ''d2''] ! 1) = Some i
          \<and> [row \<leftarrow> [((1, 1), 1), ((2, 0), 0)]. doc_id row = i] = [((i, 0), 0)])
   \<and> set_iteration (remdups :: string list \<Rightarrow> string list)
   \<and> (\<exists>clean_sparse_bow.
          remove_features remdups [((1, 1), 1), ((2, 0), 0)] [(''a'', 1)] [''a'']
            = Inr clean_sparse_bow
        \<and> set clean_sparse_bow \<subseteq> set [((1, 1), 1), ((2, 0), 0)])"
proof -
  have e: "create_sparse_bow [''d1'', ''d2''] [[''a''], []] [(''a'', 1)] [(''d1'', 1), (''d2'', 2)]
      = Inr [((1, 1), 1), ((2, 0), 0)]"
    by code_simp
  have h: "distinct [''d1'', ''d2''] \<and> length [[''a''], []] = length [''d1'', ''d2'']
          \<and> inj_on (map_of [(''d1'', 1 :: int), (''d2'', 2)]) (set [''d1'', ''d2''])"
    by simp
  have j: "(1 :: nat) < length [''d1'', ''d2'']" "[[''a''], []] ! 1 = ([] :: string list)" by simp_all
  have l: "''d1'' \<in> fst ` set (zip [''d1'', ''d2''] [[''a''], ([] :: string list)])" by simp
  note t = create_sparse_bow_has_every_document[OF e]
  from t l have "\<exists>i. map_of [(''d1'', 1), (''d2'', 2)] ''d1'' = Some i
               \<and> i \<in> doc_id ` set [((1, 1), 1), ((2, 0), 0)]"
    by blast
  moreover from t h j have "\<exists>i. map_of [(''d1'', 1), (''d2'', 2)] ([''d1'', ''d2''] ! 1) = Some i
          \<and> [row \<leftarrow> [((1, 1), 1), ((2, 0), 0)]. doc_id row = i] = [((i, 0), 0)]"
    by blast
  moreover have s: "set_iteration (remdups :: string list \<Rightarrow> string list)"
    by (simp add: set_iteration_def)
  moreover from t s have "\<exists>clean_sparse_bow.
          remove_features remdups [((1, 1), 1), ((2, 0), 0)] [(''a'', 1)] [''a'']
            = Inr clean_sparse_bow
        \<and> set clean_sparse_bow \<subseteq> set [((1, 1), 1), ((2, 0), 0)]"
    by blast
  ultimately show ?thesis using e by blast
qed

section \<open>Properties of the frequency filter\<close>

subsection \<open>\<open>remove_features\<close>\<close>

text \<open>
  Claim C6. \<open>remove_features\<close> returns the table without exactly the rows whose
  token identifier is the identifier of a feature that is in the type dictionary and
  among the features; a feature that is not in the dictionary is skipped without an
  error, so the result is the same with and without it, and the table comes back
  unchanged when no feature is in the dictionary. On the three-row table of the
  docstring, removing \<open>short\<close> leaves two rows, removing a word that is not in the
  dictionary leaves all three.
\<close>

theorem remove_features_drops_rows:
  assumes "set_iteration set_order"
  shows "remove_features set_order sparse_bow id_types features
       = Inr [row \<leftarrow> sparse_bow. \<not> (\<exists>w \<in> set features. map_of id_types w = Some (token_id row))]
     \<and> (w \<notin> fst ` set id_types \<longrightarrow>
          remove_features set_order sparse_bow id_types (w # features)
            = remove_features set_order sparse_bow id_types features)
     \<and> (set features \<inter> fst ` set id_types = {} \<longrightarrow>
          remove_features set_order sparse_bow id_types features = Inr sparse_bow)
     \<and> remove_features set_order [((1, 1), 1), ((1, 2), 2), ((1, 3), 2)]
          [(''short'', 1), (''example'', 2), (''text'', 3)] [''short'']
        = Inr [((1, 2), 2), ((1, 3), 2)]
     \<and> remove_features set_order [((1, 1), 1), ((1, 2), 2), ((1, 3), 2)]
          [(''short'', 1), (''example'', 2), (''text'', 3)] [''absent'']
        = Inr [((1, 1), 1), ((1, 2), 2), ((1, 3), 2)]"
proof -
  note e = remove_features_eq[OF assms]
  have absent: "map_of id_types w \<noteq> Some i" if "w \<notin> fst ` set id_types" for w i
    using that by (metis domI dom_map_of_conv_image_fst)
  have A: "w \<notin> fst ` set id_types \<Longrightarrow>
          remove_features set_order sparse_bow id_types (w # features)
            = remove_features set_order sparse_bow id_types features"
    using absent[of w] by (simp add: e)
  have B: "remove_features set_order sparse_bow id_types features = Inr sparse_bow"
    if "set features \<inter> fst ` set id_types = {}"
  proof -
    have "\<not> (\<exists>w \<in> set features. map_of id_types w = Some i)" for i
      using that absent by blast
    then show ?thesis by (simp add: e)
  qed
  have C: "remove_features set_order [((1, 1), 1), ((1, 2), 2), ((1, 3), 2)]
          [(''short'', 1), (''example'', 2), (''text'', 3)] [''short'']
        = Inr [((1, 2), 2), ((1, 3), 2)]"
    using assms by (simp add: remove_features_eq token_id_def)
  have D: "remove_features set_order [((1, 1), 1), ((1, 2), 2), ((1, 3), 2)]
          [(''short'', 1), (''example'', 2), (''text'', 3)] [''absent'']
        = Inr [((1, 1), 1), ((1, 2), 2), ((1, 3), 2)]"
    using assms by (simp add: remove_features_eq token_id_def)
  show ?thesis using e A B C D by blast
qed

text \<open>
  The theorem with \<open>remdups\<close> as the iteration order, on a table of two documents
  and a feature list with one word of the dictionary and one word outside it.
\<close>

theorem remove_features_drops_rows_witness:
  "set_iteration (remdups :: string list \<Rightarrow> string list)
   \<and> remove_features remdups [((1, 1), 1), ((2, 2), 2), ((2, 1), 4)]
        [(''short'', 1), (''example'', 2)] [''nowhere'', ''short'']
      = Inr [((2, 2), 2)]
   \<and> ''nowhere'' \<notin> fst ` set [(''short'', 1 :: int), (''example'', 2)]
   \<and> remove_features remdups [((1, 1), 1), ((2, 2), 2), ((2, 1), 4)]
        [(''short'', 1), (''example'', 2)] [''nowhere'', ''short'']
      = remove_features remdups [((1, 1), 1), ((2, 2), 2), ((2, 1), 4)]
        [(''short'', 1), (''example'', 2)] [''short'']
   \<and> set [''nowhere''] \<inter> fst ` set [(''short'', 1 :: int), (''example'', 2)] = {}
   \<and> remove_features remdups [((1, 1), 1), ((2, 2), 2), ((2, 1), 4)]
        [(''short'', 1), (''example'', 2)] [''nowhere'']
      = Inr [((1, 1), 1), ((2, 2), 2), ((2, 1), 4)]"
proof -
  have s: "set_iteration (remdups :: string list \<Rightarrow> string list)"
    by (simp add: set_iteration_def)
  have a: "''nowhere'' \<notin> fst ` set [(''short'', 1 :: int), (''example'', 2)]"
    and b: "set [''nowhere''] \<inter> fst ` set [(''short'', 1 :: int), (''example'', 2)] = {}" by simp_all
  note t = remove_features_drops_rows[OF s, of "[((1, 1), 1), ((2, 2), 2), ((2, 1), 4)]"
      "[(''short'', 1), (''example'', 2)]"]
  have 1: "remove_features remdups [((1, 1), 1), ((2, 2), 2), ((2, 1), 4)]
        [(''short'', 1), (''example'', 2)] [''nowhere'', ''short''] = Inr [((2, 2), 2)]"
    using t[of "[''nowhere'', ''short'']" "''nowhere''"] by (simp add: token_id_def)
  have 2: "remove_features remdups [((1, 1), 1), ((2, 2), 2), ((2, 1), 4)]
        [(''short'', 1), (''example'', 2)] [''nowhere'', ''short'']
      = remove_features remdups [((1, 1), 1), ((2, 2), 2), ((2, 1), 4)]
        [(''short'', 1), (''example'', 2)] [''short'']"
    using t[of "[''short'']" "''nowhere''"] a by blast
  have 3: "remove_features remdups [((1, 1), 1), ((2, 2), 2), ((2, 1), 4)]
        [(''short'', 1), (''example'', 2)] [''nowhere'']
      = Inr [((1, 1), 1), ((2, 2), 2), ((2, 1), 4)]"
    using t[of "[''nowhere'']" "''nowhere''"] b by blast
  show ?thesis using s a b 1 2 3 by blast
qed

text \<open>
  Claim C10, as amended. \<open>remove_features\<close> skips only the features that are not
  in the type dictionary: it hands \<open>DataFrame.drop\<close> the token identifiers of
  exactly the features that are in the dictionary and among the features, whether they
  have a row or not, and returns or raises what \<open>drop\<close> returns or raises. So with
  a \<open>drop\<close> that raises \<open>KeyError\<close> for a label that is not a value of the index
  level, \<open>remove_features\<close> raises \<open>KeyError\<close> for a feature of the dictionary
  whose token identifier is not in the level; with the \<open>drop\<close> that only leaves rows
  out it always returns a table. A feature removed twice in a row is not a case of the
  error: when the identifiers of all dictionary features are in the level, both removals
  return a table, the second one the table of the first.
\<close>

theorem remove_features_raises_what_drop_raises:
  assumes "set_iteration set_order"
  shows "(\<exists>labels. set labels = {i. \<exists>w \<in> set features. map_of id_types w = Some i}
            \<and> remove_features_with set_order drop_labels sparse_bow id_types features
                = drop_labels labels sparse_bow)
     \<and> (\<forall>w i. w \<in> set features \<and> map_of id_types w = Some i \<and> i \<notin> set level
            \<longrightarrow> remove_features_with set_order (drop_checked level) sparse_bow id_types features
                  = Inl KeyError)
     \<and> (\<exists>clean_sparse_bow.
            remove_features_with set_order (\<lambda>ids table. Inr (drop_token_ids ids table))
              sparse_bow id_types features = Inr clean_sparse_bow)
     \<and> ((\<forall>w i. w \<in> set features \<and> map_of id_types w = Some i \<longrightarrow> i \<in> set level)
            \<longrightarrow> (\<exists>clean_sparse_bow.
                   remove_features_with set_order (drop_checked level) sparse_bow id_types features
                     = Inr clean_sparse_bow
                 \<and> remove_features_with set_order (drop_checked level) clean_sparse_bow
                       id_types features
                     = Inr clean_sparse_bow))"
proof -
  note L = remove_features_with_labels[OF assms, of features id_types]
  have A: "\<exists>labels. set labels = {i. \<exists>w \<in> set features. map_of id_types w = Some i}
            \<and> remove_features_with set_order drop_labels sparse_bow id_types features
                = drop_labels labels sparse_bow"
    by (rule L)
  have B: "remove_features_with set_order (drop_checked level) sparse_bow id_types features
                  = Inl KeyError"
    if "w \<in> set features \<and> map_of id_types w = Some i \<and> i \<notin> set level" for w i
  proof -
    obtain labels where l: "set labels = {i. \<exists>w \<in> set features. map_of id_types w = Some i}"
      and r: "remove_features_with set_order (drop_checked level) sparse_bow id_types features
                = drop_checked level labels sparse_bow"
      using L[of "drop_checked level" sparse_bow] by blast
    have "i \<in> set labels" using that l by blast
    then have "\<not> set labels \<subseteq> set level" using that by blast
    then show ?thesis using r by (simp add: drop_checked_def)
  qed
  have C: "\<exists>clean_sparse_bow.
            remove_features_with set_order (\<lambda>ids table. Inr (drop_token_ids ids table))
              sparse_bow id_types features = Inr clean_sparse_bow"
    using L[of "\<lambda>ids table. Inr (drop_token_ids ids table)" sparse_bow] by auto
  have D: "\<exists>clean_sparse_bow.
                   remove_features_with set_order (drop_checked level) sparse_bow id_types features
                     = Inr clean_sparse_bow
                 \<and> remove_features_with set_order (drop_checked level) clean_sparse_bow
                       id_types features
                     = Inr clean_sparse_bow"
    if h: "\<forall>w i. w \<in> set features \<and> map_of id_types w = Some i \<longrightarrow> i \<in> set level"
  proof -
    obtain labels where l: "set labels = {i. \<exists>w \<in> set features. map_of id_types w = Some i}"
      and r: "remove_features_with set_order (drop_checked level) sparse_bow id_types features
                = drop_checked level labels sparse_bow"
      using L[of "drop_checked level" sparse_bow] by blast
    have sub: "set labels \<subseteq> set level" using h l by blast
    let ?clean = "drop_token_ids labels sparse_bow"
    have 1: "remove_features_with set_order (drop_checked level) sparse_bow id_types features
                = Inr ?clean"
      using r sub by (simp add: drop_checked_def)
    obtain labels' where l': "set labels' = {i. \<exists>w \<in> set features. map_of id_types w = Some i}"
      and r': "remove_features_with set_order (drop_checked level) ?clean id_types features
                = drop_checked level labels' ?clean"
      using L[of "drop_checked level" ?clean] by blast
    have sub': "set labels' \<subseteq> set level" using h l' by blast
    have "drop_token_ids labels' ?clean = ?clean"
      unfolding drop_token_ids_def l l' by (induction sparse_bow) auto
    then have 2: "remove_features_with set_order (drop_checked level) ?clean id_types features
                = Inr ?clean"
      using r' sub' by (simp add: drop_checked_def)
    from 1 2 show ?thesis by blast
  qed
  show ?thesis
  proof (intro conjI allI impI)
    show "\<exists>labels. set labels = {i. \<exists>w \<in> set features. map_of id_types w = Some i}
            \<and> remove_features_with set_order drop_labels sparse_bow id_types features
                = drop_labels labels sparse_bow"
      by (rule A)
  next
    fix w i
    assume "w \<in> set features \<and> map_of id_types w = Some i \<and> i \<notin> set level"
    then show "remove_features_with set_order (drop_checked level) sparse_bow id_types features
                  = Inl KeyError"
      by (rule B)
  next
    show "\<exists>clean_sparse_bow.
            remove_features_with set_order (\<lambda>ids table. Inr (drop_token_ids ids table))
              sparse_bow id_types features = Inr clean_sparse_bow"
      by (rule C)
  next
    assume "\<forall>w i. w \<in> set features \<and> map_of id_types w = Some i \<longrightarrow> i \<in> set level"
    then show "\<exists>clean_sparse_bow.
                   remove_features_with set_order (drop_checked level) sparse_bow id_types features
                     = Inr clean_sparse_bow
                 \<and> remove_features_with set_order (drop_checked level) clean_sparse_bow
                       id_types features
                     = Inr clean_sparse_bow"
      by (rule D)
  qed
qed

text \<open>
  The theorem on the table of a document with the words \<open>short\<close> and \<open>example\<close>
  and a dictionary that has the word \<open>text\<close> as well, which is in no document:
  its identifier 3 is not in the level, and \<open>drop\<close> raises for it; \<open>short\<close> is
  removed without an error.
\<close>

theorem remove_features_raises_what_drop_raises_witness:
  "set_iteration (remdups :: string list \<Rightarrow> string list)
   \<and> ''text'' \<in> set [''text'']
   \<and> map_of [(''short'', 1), (''example'', 2), (''text'', 3 :: int)] ''text'' = Some 3
   \<and> (3 :: int) \<notin> set [1, 2]
   \<and> remove_features_with remdups (drop_checked [1, 2]) [((1, 1), 1), ((1, 2), 2)]
        [(''short'', 1), (''example'', 2), (''text'', 3)] [''text'']
      = Inl KeyError
   \<and> remove_features_with remdups (drop_checked [1, 2]) [((1, 1), 1), ((1, 2), 2)]
        [(''short'', 1), (''example'', 2), (''text'', 3)] [''short'', ''absent'']
      = Inr [((1, 2), 2)]
   \<and> remove_features_with remdups (\<lambda>ids table. Inr (drop_token_ids ids table))
        [((1, 1), 1), ((1, 2), 2)]
        [(''short'', 1), (''example'', 2), (''text'', 3)] [''text'']
      = Inr [((1, 1), 1), ((1, 2), 2)]"
proof -
  have s: "set_iteration (remdups :: string list \<Rightarrow> string list)"
    by (simp add: set_iteration_def)
  have h: "''text'' \<in> set [''text'']"
    "map_of [(''short'', 1), (''example'', 2), (''text'', 3 :: int)] ''text'' = Some 3"
    "(3 :: int) \<notin> set [1, 2]"
    by simp_all
  note t = remove_features_raises_what_drop_raises[OF s, of "[''text'']"
      "[(''short'', 1), (''example'', 2), (''text'', 3)]" _ "[((1, 1), 1), ((1, 2), 2)]" "[1, 2]"]
  from t h have 1: "remove_features_with remdups (drop_checked [1, 2]) [((1, 1), 1), ((1, 2), 2)]
        [(''short'', 1), (''example'', 2), (''text'', 3)] [''text'']
      = Inl KeyError"
    by blast
  have 2: "remove_features_with remdups (drop_checked [1, 2]) [((1, 1), 1), ((1, 2), 2)]
        [(''short'', 1), (''example'', 2), (''text'', 3)] [''short'', ''absent'']
      = Inr [((1, 2), 2)]"
    by code_simp
  have 3: "remove_features_with remdups (\<lambda>ids table. Inr (drop_token_ids ids table))
        [((1, 1), 1), ((1, 2), 2)]
        [(''short'', 1), (''example'', 2), (''text'', 3)] [''text'']
      = Inr [((1, 1), 1), ((1, 2), 2)]"
    by code_simp
  show ?thesis using s h 1 2 3 by blast
qed

text \<open>
  Claim C10 as stated names a feature removed twice in a row as a case of the error. It
  is none: on the table of the docstring, whose level of token identifiers is
  \<open>1, 2, 3\<close>, removing \<open>short\<close> and removing it again from the result both
  return a table, with the \<open>drop\<close> that only leaves rows out and with the
  \<open>drop\<close> that looks the labels up in the level.
\<close>

theorem remove_features_twice_counterexample:
  "remove_features remdups [((1, 1), 1), ((1, 2), 2), ((1, 3), 2)]
        [(''short'', 1), (''example'', 2), (''text'', 3)] [''short'']
      = Inr [((1, 2), 2), ((1, 3), 2)]
   \<and> remove_features remdups [((1, 2), 2), ((1, 3), 2)]
        [(''short'', 1), (''example'', 2), (''text'', 3)] [''short'']
      = Inr [((1, 2), 2), ((1, 3), 2)]
   \<and> remove_features_with remdups (drop_checked [1, 2, 3]) [((1, 1), 1), ((1, 2), 2), ((1, 3), 2)]
        [(''short'', 1), (''example'', 2), (''text'', 3)] [''short'']
      = Inr [((1, 2), 2), ((1, 3), 2)]
   \<and> remove_features_with remdups (drop_checked [1, 2, 3]) [((1, 2), 2), ((1, 3), 2)]
        [(''short'', 1), (''example'', 2), (''text'', 3)] [''short'']
      = Inr [((1, 2), 2), ((1, 3), 2)]"
  by code_simp

subsection \<open>\<open>find_hapax\<close>\<close>

lemma invert_foldl:
  "distinct (map snd d) \<Longrightarrow> snd ` set d \<inter> fst ` set acc = {} \<Longrightarrow>
   foldl (\<lambda>acc item. AList.update (snd item) (fst item) acc) acc d
     = acc @ map (\<lambda>item. (snd item, fst item)) d"
proof (induction d arbitrary: acc)
  case Nil
  then show ?case by simp
next
  case (Cons item d)
  have u: "AList.update (snd item) (fst item) acc = acc @ [(snd item, fst item)]"
    using Cons.prems(2) by (intro update_append) auto
  have "foldl (\<lambda>acc item. AList.update (snd item) (fst item) acc) (acc @ [(snd item, fst item)]) d
      = (acc @ [(snd item, fst item)]) @ map (\<lambda>item. (snd item, fst item)) d"
    using Cons.prems by (intro Cons.IH) auto
  then show ?case using u by simp
qed

lemma invert_dict_distinct:
  "distinct (map snd d) \<Longrightarrow> invert_dict d = map (\<lambda>item. (snd item, fst item)) d"
  using invert_foldl[of d "[]"] by (simp add: invert_dict_def)

lemma map_of_invert_dict:
  assumes "distinct (map snd d)"
  shows "map_of (invert_dict d) i = Some w \<longleftrightarrow> (w, i) \<in> set d"
proof -
  have "distinct (map fst (map (\<lambda>item. (snd item, fst item)) d))"
    using assms by (simp add: comp_def)
  then have "map_of (map (\<lambda>item. (snd item, fst item)) d) i = Some w
      \<longleftrightarrow> (i, w) \<in> set (map (\<lambda>item. (snd item, fst item)) d)"
    by (rule map_of_eq_Some_iff)
  also have "\<dots> \<longleftrightarrow> (w, i) \<in> set d" by force
  finally show ?thesis by (simp add: invert_dict_distinct[OF assms])
qed

lemma hapax_ids:
  "map fst [row \<leftarrow> groupby_token_sum t. snd row = 1]
     = [i \<leftarrow> sort (remdups (map token_id t)). token_sum t i = 1]"
proof -
  have "map fst [row \<leftarrow> map (\<lambda>i. (i, f i)) xs. snd row = (1 :: int)] = [i \<leftarrow> xs. f i = 1]"
    for f and xs :: "int list"
    by (induction xs) auto
  then show ?thesis by (simp add: groupby_token_sum_def)
qed

lemma find_hapax_exact_aux:
  assumes "distinct (map fst id_types)" "distinct (map snd id_types)"
    and "\<forall>i \<in> token_id ` set sparse_bow. token_sum sparse_bow i = 1 \<longrightarrow> i \<in> snd ` set id_types"
  shows "\<exists>hapax. find_hapax sparse_bow id_types = Inr hapax \<and> distinct hapax
      \<and> set hapax = {w. \<exists>i. map_of id_types w = Some i \<and> token_sum sparse_bow i = 1}"
proof -
  let ?ids = "[i \<leftarrow> sort (remdups (map token_id sparse_bow)). token_sum sparse_bow i = 1]"
  let ?inv = "\<lambda>i. the (map_of (invert_dict id_types) i)"
  have inv: "(?inv i, i) \<in> set id_types" if "i \<in> snd ` set id_types" for i
  proof -
    from that obtain w where "(w, i) \<in> set id_types" by force
    then have "map_of (invert_dict id_types) i = Some w" by (simp add: map_of_invert_dict[OF assms(2)])
    then show ?thesis using \<open>(w, i) \<in> set id_types\<close> by simp
  qed
  have ids_set: "set ?ids = {i \<in> token_id ` set sparse_bow. token_sum sparse_bow i = 1}" by auto
  have cov: "set ?ids \<subseteq> snd ` set id_types" using assms(3) ids_set by blast
  have "fst ` set (invert_dict id_types) = snd ` set id_types"
    by (simp add: invert_dict_distinct[OF assms(2)] image_image)
  then have "set ?ids \<subseteq> dom (map_of (invert_dict id_types))"
    using cov by (simp add: dom_map_of_conv_image_fst)
  then have r: "find_hapax sparse_bow id_types = Inr (map ?inv ?ids)"
    by (simp add: find_hapax_def Let_def hapax_ids lookup_all_Inr)
  have "inj_on ?inv (set ?ids)"
  proof (rule inj_onI)
    fix i j assume i: "i \<in> set ?ids" and j: "j \<in> set ?ids" and e: "?inv i = ?inv j"
    have ii: "i \<in> snd ` set id_types" and jj: "j \<in> snd ` set id_types"
      using cov i j by blast+
    have "(?inv i, i) \<in> set id_types" by (rule inv[OF ii])
    moreover have "(?inv i, j) \<in> set id_types" using inv[OF jj] e by simp
    ultimately show "i = j" using assms(1) by (rule_tac eq_key_imp_eq_value)
  qed
  moreover have "distinct ?ids" by simp
  ultimately have d: "distinct (map ?inv ?ids)" by (simp add: distinct_map)
  have "set (map ?inv ?ids) = {w. \<exists>i. map_of id_types w = Some i \<and> token_sum sparse_bow i = 1}"
  proof (intro set_eqI iffI)
    fix w assume "w \<in> set (map ?inv ?ids)"
    then obtain i where i: "i \<in> set ?ids" "w = ?inv i" by auto
    then have "(w, i) \<in> set id_types" using inv cov by blast
    then have "map_of id_types w = Some i" using assms(1) by simp
    moreover have "token_sum sparse_bow i = 1" using i(1) by simp
    ultimately show "w \<in> {w. \<exists>i. map_of id_types w = Some i \<and> token_sum sparse_bow i = 1}" by blast
  next
    fix w assume "w \<in> {w. \<exists>i. map_of id_types w = Some i \<and> token_sum sparse_bow i = 1}"
    then obtain i where i: "map_of id_types w = Some i" "token_sum sparse_bow i = 1" by blast
    then have "i \<in> token_id ` set sparse_bow" by (intro token_sum_nonzero) simp
    then have m: "i \<in> set ?ids" using i(2) by simp
    have "(w, i) \<in> set id_types" using i(1) by (rule map_of_SomeD)
    then have "map_of (invert_dict id_types) i = Some w"
      by (simp add: map_of_invert_dict[OF assms(2)])
    then have "w = ?inv i" by simp
    then have "w \<in> ?inv ` set ?ids" using m by (rule image_eqI)
    then show "w \<in> set (map ?inv ?ids)" by simp
  qed
  with r d show ?thesis by blast
qed

text \<open>
  Claim C7. For a table and a type dictionary with pairwise distinct tokens and
  pairwise distinct identifiers that contains the identifier of every token
  identifier of the table whose counts sum to 1, \<open>find_hapax\<close> returns, each once,
  exactly the tokens of the dictionary whose counts, summed over all documents, are 1.
  On the table built from the tokens \<open>short, example, example, text, text\<close> with
  the dictionary of the docstring it returns exactly \<open>short\<close>.
\<close>

theorem find_hapax_exact:
  assumes "distinct (map fst id_types)" "distinct (map snd id_types)"
    and "\<forall>i \<in> token_id ` set sparse_bow. token_sum sparse_bow i = 1 \<longrightarrow> i \<in> snd ` set id_types"
  shows "(\<exists>hapax. find_hapax sparse_bow id_types = Inr hapax \<and> distinct hapax
      \<and> set hapax = {w. \<exists>i. map_of id_types w = Some i \<and> token_sum sparse_bow i = 1})
    \<and> create_sparse_bow [''exampletext''] [[''short'', ''example'', ''example'', ''text'', ''text'']]
         [(''short'', 1), (''example'', 2), (''text'', 3)] [(''exampletext'', 1)]
       = Inr [((1, 1), 1), ((1, 2), 2), ((1, 3), 2)]
    \<and> find_hapax [((1, 1), 1), ((1, 2), 2), ((1, 3), 2)] [(''short'', 1), (''example'', 2), (''text'', 3)]
       = Inr [''short'']"
proof -
  have "create_sparse_bow [''exampletext''] [[''short'', ''example'', ''example'', ''text'', ''text'']]
         [(''short'', 1), (''example'', 2), (''text'', 3)] [(''exampletext'', 1)]
       = Inr [((1, 1), 1), ((1, 2), 2), ((1, 3), 2)]"
    by code_simp
  moreover have "find_hapax [((1, 1), 1), ((1, 2), 2), ((1, 3), 2)]
       [(''short'', 1), (''example'', 2), (''text'', 3)] = Inr [''short'']"
    by code_simp
  ultimately show ?thesis using find_hapax_exact_aux[OF assms] by blast
qed

text \<open>
  The theorem on a table of two documents in which \<open>a\<close> and \<open>b\<close> occur once
  and \<open>c\<close> once in each document.
\<close>

theorem find_hapax_exact_witness:
  "distinct (map fst [(''a'', 1 :: int), (''b'', 2), (''c'', 3)])
   \<and> distinct (map snd [(''a'', 1 :: int), (''b'', 2), (''c'', 3)])
   \<and> find_hapax [((1, 2), 1), ((1, 3), 1), ((2, 3), 1), ((2, 1), 1)] [(''a'', 1), (''b'', 2), (''c'', 3)]
       = Inr [''a'', ''b'']
   \<and> (\<exists>hapax. find_hapax [((1, 2), 1), ((1, 3), 1), ((2, 3), 1), ((2, 1), 1)]
                [(''a'', 1), (''b'', 2), (''c'', 3)] = Inr hapax \<and> distinct hapax
      \<and> set hapax = {w. \<exists>i. map_of [(''a'', 1), (''b'', 2), (''c'', 3)] w = Some i
                       \<and> token_sum [((1, 2), 1), ((1, 3), 1), ((2, 3), 1), ((2, 1), 1)] i = 1})"
proof -
  have h1: "distinct (map fst [(''a'', 1 :: int), (''b'', 2), (''c'', 3)])"
    and h2: "distinct (map snd [(''a'', 1 :: int), (''b'', 2), (''c'', 3)])" by simp_all
  have h3: "\<forall>i \<in> token_id ` set [((1, 2), 1), ((1, 3), 1), ((2, 3), 1), ((2, 1), 1)].
      token_sum [((1, 2), 1), ((1, 3), 1), ((2, 3), 1), ((2, 1), 1)] i = 1
        \<longrightarrow> i \<in> snd ` set [(''a'', 1 :: int), (''b'', 2), (''c'', 3)]"
    by (simp add: token_id_def)
  have e: "find_hapax [((1, 2), 1), ((1, 3), 1), ((2, 3), 1), ((2, 1), 1)]
       [(''a'', 1), (''b'', 2), (''c'', 3)] = Inr [''a'', ''b'']"
    by code_simp
  from find_hapax_exact[OF h1 h2 h3] show ?thesis using h1 h2 e by blast
qed

section \<open>Properties of the exporter\<close>

lemma level_max_Max: "xs \<noteq> [] \<Longrightarrow> level_max xs = Some (Max (set xs))"
proof (induction xs)
  case Nil
  then show ?case by simp
next
  case (Cons x xs)
  then show ?case by (cases "xs = []") (auto simp: max_def Max_insert)
qed

lemma str_int_1_3: "str_int 1 = ''1''" "str_int 3 = ''3''"
  by (simp_all add: str_int_def str_nat.simps digit_char_def)

text \<open>
  Claim C9, as amended. For a table with at least one row, \<open>save_sparse_bow\<close>
  writes the banner line, then the header line with the maximum of the document
  identifiers, the maximum of the token identifiers and the sum of all counts, then
  one line \<open>doc_id token_id count\<close> per row in row order; every line ends with
  the line feed character. For one document with one token of count 3 the header line
  and the only data line are both \<open>1 1 3\<close>.
\<close>

theorem save_sparse_bow_format:
  assumes "sparse_bow \<noteq> []"
  shows "save_sparse_bow sparse_bow output =
      (output @ ''.mm'',
       [''%%MatrixMarket matrix coordinate real general'' @ [CHR 0x0A],
        str_int (Max (doc_id ` set sparse_bow)) @ '' '' @ str_int (Max (token_id ` set sparse_bow))
          @ '' '' @ str_int (sum_list (map snd sparse_bow)) @ [CHR 0x0A]]
       @ map (\<lambda>row. str_int (doc_id row) @ '' '' @ str_int (token_id row) @ '' ''
                     @ str_int (snd row) @ [CHR 0x0A]) sparse_bow)
    \<and> save_sparse_bow [((1, 1), 3)] output =
      (output @ ''.mm'',
       [''%%MatrixMarket matrix coordinate real general'' @ [CHR 0x0A],
        ''1 1 3'' @ [CHR 0x0A], ''1 1 3'' @ [CHR 0x0A]])"
proof -
  have "level_max (map doc_id sparse_bow) = Some (Max (doc_id ` set sparse_bow))"
    "level_max (map token_id sparse_bow) = Some (Max (token_id ` set sparse_bow))"
    using assms by (simp_all add: level_max_Max)
  then have "header_string sparse_bow =
        str_int (Max (doc_id ` set sparse_bow)) @ '' '' @ str_int (Max (token_id ` set sparse_bow))
          @ '' '' @ str_int (sum_list (map snd sparse_bow)) @ [CHR 0x0A]"
    by (simp add: header_string_def str_level_max_def newline_def)
  then have A: "save_sparse_bow sparse_bow output =
      (output @ ''.mm'',
       [''%%MatrixMarket matrix coordinate real general'' @ [CHR 0x0A],
        str_int (Max (doc_id ` set sparse_bow)) @ '' '' @ str_int (Max (token_id ` set sparse_bow))
          @ '' '' @ str_int (sum_list (map snd sparse_bow)) @ [CHR 0x0A]]
       @ map (\<lambda>row. str_int (doc_id row) @ '' '' @ str_int (token_id row) @ '' ''
                     @ str_int (snd row) @ [CHR 0x0A]) sparse_bow)"
    by (simp add: save_sparse_bow_def csv_row_def newline_def)
  have B: "save_sparse_bow [((1, 1), 3)] output =
      (output @ ''.mm'',
       [''%%MatrixMarket matrix coordinate real general'' @ [CHR 0x0A],
        ''1 1 3'' @ [CHR 0x0A], ''1 1 3'' @ [CHR 0x0A]])"
    by (simp add: save_sparse_bow_def csv_row_def header_string_def str_level_max_def
          str_int_1_3 doc_id_def token_id_def newline_def)
  show ?thesis using A B by blast
qed

text \<open>
  The theorem on a table whose identifiers are not contiguous: the header has the
  maxima 4 and 7, although there are only two documents.
\<close>

theorem save_sparse_bow_format_witness:
  "[((2, 5), 1), ((2, 7), 4), ((4, 5), 2)] \<noteq> ([] :: sparse_bow)
   \<and> save_sparse_bow [((2, 5), 1), ((2, 7), 4), ((4, 5), 2)] ''out'' =
      (''out.mm'',
       [''%%MatrixMarket matrix coordinate real general'' @ [CHR 0x0A],
        ''4 7 7'' @ [CHR 0x0A], ''2 5 1'' @ [CHR 0x0A], ''2 7 4'' @ [CHR 0x0A], ''4 5 2'' @ [CHR 0x0A]])
   \<and> Max (doc_id ` set [((2, 5), 1), ((2, 7), 4), ((4, 5), 2)]) = 4
   \<and> Max (token_id ` set [((2, 5), 1), ((2, 7), 4), ((4, 5), 2)]) = 7
   \<and> card (doc_id ` set [((2, 5), 1), ((2, 7), 4), ((4, 5), 2)]) = 2"
proof -
  have ne: "[((2, 5), 1), ((2, 7), 4), ((4, 5), 2)] \<noteq> ([] :: sparse_bow)" by simp
  have m: "Max (doc_id ` set [((2, 5), 1), ((2, 7), 4), ((4, 5), 2)]) = 4"
    "Max (token_id ` set [((2, 5), 1), ((2, 7), 4), ((4, 5), 2)]) = 7"
    "card (doc_id ` set [((2, 5), 1), ((2, 7), 4), ((4, 5), 2)]) = 2"
    by (simp_all add: doc_id_def token_id_def)
  have s: "str_int 1 = ''1''" "str_int 2 = ''2''" "str_int 4 = ''4''" "str_int 5 = ''5''" "str_int 7 = ''7''"
    by (simp_all add: str_int_def str_nat.simps digit_char_def)
  from save_sparse_bow_format[OF ne, of "''out''"]
  have "save_sparse_bow [((2, 5), 1), ((2, 7), 4), ((4, 5), 2)] ''out'' =
      (''out.mm'',
       [''%%MatrixMarket matrix coordinate real general'' @ [CHR 0x0A],
        ''4 7 7'' @ [CHR 0x0A], ''2 5 1'' @ [CHR 0x0A], ''2 7 4'' @ [CHR 0x0A], ''4 5 2'' @ [CHR 0x0A]])"
    by (simp add: m s doc_id_def token_id_def)
  then show ?thesis using ne m by blast
qed

text \<open>
  Claim C9 as stated, for every table, fails on the table without rows, which
  \<open>remove_features\<close> returns when every row is removed: the index levels have no
  maximum, and the header line is \<open>nan nan 0\<close>.
\<close>

theorem save_sparse_bow_empty_table_counterexample:
  "remove_features remdups [((1, 1), 3)] [(''a'', 1)] [''a''] = Inr []
   \<and> level_max (map doc_id ([] :: sparse_bow)) = None
   \<and> level_max (map token_id ([] :: sparse_bow)) = None
   \<and> save_sparse_bow [] ''out'' =
      (''out.mm'',
       [''%%MatrixMarket matrix coordinate real general'' @ [CHR 0x0A],
        ''nan nan 0'' @ [CHR 0x0A]])"
  by code_simp

end
